theory Spec2Isabelle
  imports
    Complex_Main
    "HOL-Library.Word"
    "HOL-Library.Log_Nat"
    "HOL-Library.Multiset"
    "HOL-Library.AList"
begin

section \<open>The WIGO metrics collector\<close>

text \<open>
  A shallow embedding of \<^verbatim>\<open>WigoMetricsCollector\<close> of \<^verbatim>\<open>wigo_rpc_v003.py\<close>: the binary search for a block by
  timestamp, the decoder of a Transfer log, the per-day accumulation, and the chunked scan
  loop of \<^verbatim>\<open>get_token_metrics\<close> with its halving of the chunk size. The remote node, the
  CSV file and the progress file are explicit state; every exception the source can raise
  is a branch of the model.
\<close>

subsection \<open>Python floats\<close>

text \<open>
  \<^verbatim>\<open>value / 1e18\<close> and \<^verbatim>\<open>daily_metrics['volume'] += ...\<close> are IEEE 754 binary64 operations.
  Every operand of this program is non-negative (an unsigned payload, or a sum of such), so
  a float is a non-negative rational that binary64 represents, or the infinity a sum
  overflows to. \<open>round_binary64\<close> is round-to-nearest, ties-to-even, at 53 bits of
  precision with the exponent range of binary64 (subnormals below \<open>2^-1022\<close>, overflow from
  \<open>2^1024\<close>); it is meant for \<open>q \<ge> 0\<close> only.
\<close>

datatype float64 = Finite rat | Infinity

definition pow2 :: "int \<Rightarrow> rat" where
  "pow2 e = (if 0 \<le> e then 2 ^ nat e else 1 / 2 ^ nat (- e))"

text \<open>\<open>ilog2 q\<close> is the exponent of the leading bit of \<open>q > 0\<close>: \<open>2^(ilog2 q) \<le> q < 2^(ilog2 q + 1)\<close>.\<close>

definition ilog2 :: "rat \<Rightarrow> int" where
  "ilog2 q = (let (n, d) = quotient_of q; k = bitlen n - bitlen d
              in if pow2 k \<le> q then k else k - 1)"

definition round_half_even :: "rat \<Rightarrow> int" where
  "round_half_even q =
     (let f = \<lfloor>q\<rfloor>; r = q - of_int f
      in if r < 1 / 2 then f else if 1 / 2 < r then f + 1 else if even f then f else f + 1)"

definition round_binary64 :: "rat \<Rightarrow> float64" where
  "round_binary64 q =
     (if q \<le> 0 then Finite 0
      else let e = max (ilog2 q - 52) (- 1074);
               r = of_int (round_half_even (q / pow2 e)) * pow2 e
           in if pow2 1024 \<le> r then Infinity else Finite r)"

text \<open>
  The conversion of a Python int to a float (\<^verbatim>\<open>PyLong_AsDouble\<close>) rounds correctly and raises
  OverflowError (here \<open>None\<close>) where the rounded value is out of range.
\<close>

definition float_of_int :: "int \<Rightarrow> float64 option" where
  "float_of_int v =
     (case round_binary64 (of_int v) of Infinity \<Rightarrow> None | Finite r \<Rightarrow> Some (Finite r))"

text \<open>Float division by a finite positive divisor, and float addition.\<close>

definition float_div :: "float64 \<Rightarrow> rat \<Rightarrow> float64" where
  "float_div x d = (case x of Infinity \<Rightarrow> Infinity | Finite a \<Rightarrow> round_binary64 (a / d))"

definition float_add :: "float64 \<Rightarrow> float64 \<Rightarrow> float64" where
  "float_add x y =
     (case x of
        Infinity \<Rightarrow> Infinity
      | Finite a \<Rightarrow> (case y of Infinity \<Rightarrow> Infinity | Finite b \<Rightarrow> round_binary64 (a + b)))"

text \<open>\<^verbatim>\<open>value / 1e18\<close> for a Python int \<^verbatim>\<open>value\<close>: the int is converted, then divided.\<close>

definition int_truediv_1e18 :: "int \<Rightarrow> float64 option" where
  "int_truediv_1e18 v =
     (case float_of_int v of None \<Rightarrow> None | Some x \<Rightarrow> Some (float_div x (10 ^ 18)))"

definition float_nonneg :: "float64 \<Rightarrow> bool" where
  "float_nonneg x = (case x of Infinity \<Rightarrow> True | Finite a \<Rightarrow> 0 \<le> a)"

subsection \<open>Raw logs and the decoder\<close>

type_synonym byte = "8 word"
type_synonym bytes = "byte list"

text \<open>
  An address is the 20 bytes that \<^verbatim>\<open>Web3.to_checksum_address\<close> renders as a checksummed
  hexadecimal string; the rendering is one-to-one, so the bytes stand for the string.
\<close>

type_synonym address = bytes

record raw_log =
  blockNumber :: int
  topics :: "bytes list"
  data :: bytes

record transfer =
  from_address :: address
  to_address :: address
  value_tokens :: float64

text \<open>
  \<^verbatim>\<open>Web3.to_checksum_address('0x' + topic.hex()[-40:])\<close>: the last 40 hexadecimal digits of
  the topic are its last 20 bytes; a topic of fewer than 20 bytes gives fewer than 40 digits
  and \<^verbatim>\<open>to_checksum_address\<close> raises.
\<close>

definition address_of_topic :: "bytes \<Rightarrow> address option" where
  "address_of_topic t = (if length t < 20 then None else Some (drop (length t - 20) t))"

text \<open>\<^verbatim>\<open>int(data.hex(), 16)\<close>: the big-endian value of the payload; ValueError on no digits.\<close>

definition big_endian :: "bytes \<Rightarrow> int" where
  "big_endian bs = foldl (\<lambda>a b. a * 256 + uint b) 0 bs"

definition int_of_hex :: "bytes \<Rightarrow> int option" where
  "int_of_hex bs = (if bs = [] then None else Some (big_endian bs))"

text \<open>
  \<^verbatim>\<open>decode_transfer_event\<close>: the whole body is inside \<^verbatim>\<open>try ... except Exception\<close>, and every
  raise (IndexError on \<^verbatim>\<open>topics[1]\<close> or \<^verbatim>\<open>topics[2]\<close>, an invalid address, ValueError on the
  payload, OverflowError in the division) returns None. The statements run in the source's
  order.
\<close>

definition decode_transfer_event :: "raw_log \<Rightarrow> transfer option" where
  "decode_transfer_event event_log =
     (if length (topics event_log) \<le> 1 then None
      else (case address_of_topic (topics event_log ! 1) of
        None \<Rightarrow> None
      | Some from_addr \<Rightarrow>
          (if length (topics event_log) \<le> 2 then None
           else (case address_of_topic (topics event_log ! 2) of
             None \<Rightarrow> None
           | Some to_addr \<Rightarrow>
               (case int_of_hex (data event_log) of
                  None \<Rightarrow> None
                | Some v \<Rightarrow>
                    (case int_truediv_1e18 v of
                       None \<Rightarrow> None
                     | Some x \<Rightarrow>
                         Some \<lparr>from_address = from_addr, to_address = to_addr,
                               value_tokens = x\<rparr>))))))"

subsection \<open>The per-day accumulation\<close>

text \<open>
  \<^verbatim>\<open>chunk_metrics\<close> is a \<^verbatim>\<open>defaultdict\<close> from a date to a dict of five entries. A Python dict
  keeps its keys in insertion order, and \<^verbatim>\<open>append_chunk_data\<close> writes the rows in that
  order, so the dict is an association list: \<open>AList.update\<close> replaces the entry of a key
  that is present and appends a new key at the end. A date is the calendar day that
  \<^verbatim>\<open>datetime.fromtimestamp(ts).date()\<close> gives, as a day number.
\<close>

type_synonym date = int

record daily_metrics =
  transactions :: nat
  active_addresses :: "address set"
  volume :: float64
  senders :: "address set"
  receivers :: "address set"

type_synonym chunk_metrics = "(date \<times> daily_metrics) list"

text \<open>The default entry of the \<^verbatim>\<open>defaultdict\<close>; its volume is the int 0, which the first
  \<^verbatim>\<open>+=\<close> converts to the float 0.0.\<close>

definition default_metrics :: daily_metrics where
  "default_metrics =
     \<lparr>transactions = 0, active_addresses = {}, volume = Finite 0, senders = {},
      receivers = {}\<rparr>"

text \<open>Lines 241 to 246 on one entry.\<close>

definition add_transfer :: "daily_metrics \<Rightarrow> transfer \<Rightarrow> daily_metrics" where
  "add_transfer dm td =
     \<lparr>transactions = transactions dm + 1,
      active_addresses = insert (to_address td) (insert (from_address td) (active_addresses dm)),
      volume = float_add (volume dm) (value_tokens td),
      senders = insert (from_address td) (senders dm),
      receivers = insert (to_address td) (receivers dm)\<rparr>"

text \<open>Lines 240 to 246: \<^verbatim>\<open>chunk_metrics[date_key]\<close> creates the entry when the date is new.\<close>

definition observe :: "chunk_metrics \<Rightarrow> date \<Rightarrow> transfer \<Rightarrow> chunk_metrics" where
  "observe cm date_key td =
     AList.update date_key
       (add_transfer (case map_of cm date_key of None \<Rightarrow> default_metrics | Some dm \<Rightarrow> dm) td)
       cm"

text \<open>The accumulation over a list of dated transfers, in their order.\<close>

fun observe_all :: "chunk_metrics \<Rightarrow> (date \<times> transfer) list \<Rightarrow> chunk_metrics" where
  "observe_all cm [] = cm"
| "observe_all cm ((d, td) # es) = observe_all (observe cm d td) es"

subsection \<open>The node, the files and the order of the effects\<close>

text \<open>
  The node is unreliable: the same request can fail now and succeed later. Every remote call
  advances a counter \<open>tick\<close>, and the node answers as a function of the counter and the
  request; \<open>None\<close> is a call that raises. \<open>date_of_timestamp\<close> is the local calendar day of
  a Unix time.
\<close>

record env =
  eth_block_number :: "nat \<Rightarrow> int option"
  eth_get_block :: "nat \<Rightarrow> int \<Rightarrow> int option"
  eth_get_logs :: "nat \<Rightarrow> int \<Rightarrow> int \<Rightarrow> raw_log list option"
  date_of_timestamp :: "int \<Rightarrow> date"

record csv_row =
  row_date :: date
  row_transactions :: nat
  row_active_addresses :: nat
  row_volume :: float64
  row_unique_senders :: nat
  row_unique_receivers :: nat

text \<open>The effects of a run, in the order they happen; a sleep is in milliseconds.\<close>

datatype action =
    BlockNumber
  | GetBlock int
  | GetLogs int int
  | Sleep nat
  | AppendChunkData "csv_row list"
  | WriteProgress int int int

text \<open>
  The state outside the collector: the counter of remote calls, the CSV file of the session
  (\<open>None\<close> while it does not exist), \<^verbatim>\<open>progress.txt\<close> of the session (its three numbers
  \<^verbatim>\<open>start_block\<close>, \<^verbatim>\<open>end_block\<close>, \<^verbatim>\<open>last_processed\<close>), and the effects so far.
\<close>

record world =
  tick :: nat
  csv_file :: "csv_row list option"
  progress_file :: "(int \<times> int \<times> int) option"
  trace :: "action list"

definition log_action :: "action \<Rightarrow> world \<Rightarrow> world" where
  "log_action a w = w\<lparr>trace := trace w @ [a]\<rparr>"

definition next_tick :: "world \<Rightarrow> world" where
  "next_tick w = w\<lparr>tick := Suc (tick w)\<rparr>"

definition rpc_block_number :: "env \<Rightarrow> world \<Rightarrow> int option \<times> world" where
  "rpc_block_number e w = (eth_block_number e (tick w), log_action BlockNumber (next_tick w))"

definition rpc_get_block :: "env \<Rightarrow> int \<Rightarrow> world \<Rightarrow> int option \<times> world" where
  "rpc_get_block e n w = (eth_get_block e (tick w) n, log_action (GetBlock n) (next_tick w))"

definition rpc_get_logs :: "env \<Rightarrow> int \<Rightarrow> int \<Rightarrow> world \<Rightarrow> raw_log list option \<times> world" where
  "rpc_get_logs e a b w = (eth_get_logs e (tick w) a b, log_action (GetLogs a b) (next_tick w))"

definition sleep :: "nat \<Rightarrow> world \<Rightarrow> world" where
  "sleep ms w = log_action (Sleep ms) w"

subsection \<open>Blocks and timestamps\<close>

text \<open>
  \<^verbatim>\<open>get_block_timestamp\<close>: up to three tries, one second apart; the third failure is raised
  (\<open>None\<close>). The model returns the Unix time; the caller takes its date.
\<close>

fun get_block_timestamp_tries :: "env \<Rightarrow> int \<Rightarrow> nat \<Rightarrow> world \<Rightarrow> int option \<times> world" where
  "get_block_timestamp_tries e n 0 w = (None, w)"
| "get_block_timestamp_tries e n (Suc k) w =
     (case rpc_get_block e n w of
        (Some ts, w') \<Rightarrow> (Some ts, w')
      | (None, w') \<Rightarrow>
          if k = 0 then (None, w') else get_block_timestamp_tries e n k (sleep 1000 w'))"

definition get_block_timestamp :: "env \<Rightarrow> int \<Rightarrow> world \<Rightarrow> int option \<times> world" where
  "get_block_timestamp e n w = get_block_timestamp_tries e n 3 w"

text \<open>
  The loop of \<^verbatim>\<open>find_block_by_timestamp\<close>. It ends on an exact match, on a block that cannot
  be fetched (the source prints and returns None), or with \<open>left > right\<close>.
\<close>

datatype search = Found int | Failed | Exhausted int int

function find_block_loop :: "env \<Rightarrow> int \<Rightarrow> int \<Rightarrow> int \<Rightarrow> world \<Rightarrow> search \<times> world" where
  "find_block_loop e target_timestamp left right w =
     (if left \<le> right then
        (let mid = (left + right) div 2 in
         case rpc_get_block e mid w of
           (None, w') \<Rightarrow> (Failed, w')
         | (Some ts, w') \<Rightarrow>
             if ts = target_timestamp then (Found mid, w')
             else if ts < target_timestamp then find_block_loop e target_timestamp (mid + 1) right w'
             else find_block_loop e target_timestamp left (mid - 1) w')
      else (Exhausted left right, w))"
  by pat_completeness auto
termination
  by (relation "measure (\<lambda>(e, t, left, right, w). nat (right - left + 1))") auto

text \<open>
  A call of the source either raises (\<open>Raised\<close>: \<^verbatim>\<open>self.w3.eth.block_number\<close> is read outside
  every \<^verbatim>\<open>try\<close>) or returns.
\<close>

datatype 'a result = Raised | Returned 'a

definition find_block_by_timestamp :: "env \<Rightarrow> int \<Rightarrow> world \<Rightarrow> int option result \<times> world" where
  "find_block_by_timestamp e target_timestamp w =
     (case rpc_block_number e w of
        (None, w1) \<Rightarrow> (Raised, w1)
      | (Some right, w1) \<Rightarrow>
          (case find_block_loop e target_timestamp 1 right w1 of
             (Found mid, w2) \<Rightarrow> (Returned (Some mid), w2)
           | (Failed, w2) \<Rightarrow> (Returned None, w2)
           | (Exhausted left right', w2) \<Rightarrow>
               (case rpc_block_number e w2 of
                  (None, w3) \<Rightarrow> (Raised, w3)
                | (Some height, w3) \<Rightarrow>
                    (Returned (Some (if left \<le> height then left else right')), w3))))"

subsection \<open>The scan\<close>

text \<open>
  The \<^verbatim>\<open>for event in events\<close> loop (lines 234 to 246). The timestamp of the block is fetched
  before the log is decoded; a fetch that fails three times raises out of the loop (\<open>None\<close>),
  and a log that does not decode is passed over.
\<close>

fun process_events ::
  "env \<Rightarrow> chunk_metrics \<Rightarrow> raw_log list \<Rightarrow> world \<Rightarrow> chunk_metrics option \<times> world" where
  "process_events e cm [] w = (Some cm, w)"
| "process_events e cm (event # events) w =
     (case get_block_timestamp e (blockNumber event) w of
        (None, w') \<Rightarrow> (None, w')
      | (Some ts, w') \<Rightarrow>
          (case decode_transfer_event event of
             None \<Rightarrow> process_events e cm events w'
           | Some transfer_data \<Rightarrow>
               process_events e (observe cm (date_of_timestamp e ts) transfer_data) events w'))"

definition row_of :: "date \<times> daily_metrics \<Rightarrow> csv_row" where
  "row_of p =
     \<lparr>row_date = fst p,
      row_transactions = transactions (snd p),
      row_active_addresses = card (active_addresses (snd p)),
      row_volume = volume (snd p),
      row_unique_senders = card (senders (snd p)),
      row_unique_receivers = card (receivers (snd p))\<rparr>"

text \<open>
  \<^verbatim>\<open>append_chunk_data\<close>: nothing is written for an empty dict; otherwise the rows are appended
  to the CSV file, which is created when it does not exist. The call is recorded either way.
\<close>

definition append_chunk_data :: "chunk_metrics \<Rightarrow> world \<Rightarrow> world" where
  "append_chunk_data cm w =
     (let w' = log_action (AppendChunkData (map row_of cm)) w
      in if cm = [] then w'
         else w'\<lparr>csv_file :=
                   Some ((case csv_file w of None \<Rightarrow> [] | Some rows \<Rightarrow> rows) @ map row_of cm)\<rparr>)"

text \<open>\<^verbatim>\<open>progress.txt\<close> is opened with mode \<^verbatim>\<open>'w'\<close>: the three numbers replace what was there.\<close>

definition write_progress :: "int \<Rightarrow> int \<Rightarrow> int \<Rightarrow> world \<Rightarrow> world" where
  "write_progress start_block end_block last_processed w =
     log_action (WriteProgress start_block end_block last_processed)
       (w\<lparr>progress_file := Some (start_block, end_block, last_processed)\<rparr>)"

text \<open>
  The body of the \<^verbatim>\<open>try\<close> (lines 215 to 253) for one chunk: \<open>True\<close> when it ran to its end,
  \<open>False\<close> when \<^verbatim>\<open>get_logs\<close> or a timestamp fetch raised. \<^verbatim>\<open>chunk_metrics\<close> starts empty
  in every attempt. Writing the two files is taken to succeed, and what the source prints
  or plots is left out.
\<close>

definition chunk_attempt :: "env \<Rightarrow> int \<Rightarrow> int \<Rightarrow> int \<Rightarrow> world \<Rightarrow> bool \<times> world" where
  "chunk_attempt e current_block chunk_end end_block w =
     (case rpc_get_logs e current_block chunk_end w of
        (None, w1) \<Rightarrow> (False, w1)
      | (Some events, w1) \<Rightarrow>
          (case process_events e [] events w1 of
             (None, w2) \<Rightarrow> (False, w2)
           | (Some cm, w2) \<Rightarrow>
               (True, write_progress current_block end_block chunk_end (append_chunk_data cm w2))))"

text \<open>
  The \<^verbatim>\<open>while current_block < end_block\<close> loop (lines 211 to 265). It returns the values of
  \<^verbatim>\<open>current_block\<close> and \<^verbatim>\<open>chunk_size\<close> at its exit with the state. The chunk size is a
  natural number: a count of blocks, 1000 by default.
\<close>

function scan_loop :: "env \<Rightarrow> int \<Rightarrow> int \<Rightarrow> nat \<Rightarrow> world \<Rightarrow> int \<times> nat \<times> world" where
  "scan_loop e end_block current_block chunk_size w =
     (if current_block < end_block then
        (let chunk_end = min (current_block + int chunk_size) end_block;
             (ok, w') = chunk_attempt e current_block chunk_end end_block w
         in if ok then scan_loop e end_block (chunk_end + 1) chunk_size (sleep 500 w')
            else if chunk_size div 2 < 100 then (current_block, chunk_size div 2, w')
            else scan_loop e end_block current_block (chunk_size div 2) (sleep 2000 w'))
      else (current_block, chunk_size, w))"
  by pat_completeness auto
termination
  by (relation "measures
         [\<lambda>(e, end_block, current_block, chunk_size, w). nat (end_block - current_block),
          \<lambda>(e, end_block, current_block, chunk_size, w). chunk_size]") auto

text \<open>\<^verbatim>\<open>if not current_block or not end_block\<close>: None and 0 are both false.\<close>

definition falsy :: "int option \<Rightarrow> bool" where
  "falsy b = (case b of None \<Rightarrow> True | Some n \<Rightarrow> n = 0)"

text \<open>
  \<^verbatim>\<open>get_token_metrics\<close>, for the Unix times of \<^verbatim>\<open>start_date\<close> and \<^verbatim>\<open>end_date\<close>. It returns
  what \<^verbatim>\<open>pd.read_csv\<close> reads from the CSV file, or None when there is no file.
\<close>

definition get_token_metrics ::
  "env \<Rightarrow> int \<Rightarrow> int \<Rightarrow> nat \<Rightarrow> world \<Rightarrow> csv_row list option result \<times> world" where
  "get_token_metrics e start_timestamp end_timestamp chunk_size w =
     (case find_block_by_timestamp e start_timestamp w of
        (Raised, w1) \<Rightarrow> (Raised, w1)
      | (Returned current_block, w1) \<Rightarrow>
          (case find_block_by_timestamp e end_timestamp w1 of
             (Raised, w2) \<Rightarrow> (Raised, w2)
           | (Returned end_block, w2) \<Rightarrow>
               if falsy current_block \<or> falsy end_block then (Returned None, w2)
               else
                 (let w3 = write_progress (the current_block) (the end_block) (the current_block) w2;
                      (cb, cs, w4) = scan_loop e (the end_block) (the current_block) chunk_size w3
                  in (Returned (csv_file w4), w4))))"

subsection \<open>Reading a trace, and the invariant of an entry\<close>

text \<open>The block ranges requested from the node, and the \<^verbatim>\<open>last_processed\<close> values written.\<close>

fun fetched :: "action list \<Rightarrow> (int \<times> int) list" where
  "fetched [] = []"
| "fetched (GetLogs a b # tr) = (a, b) # fetched tr"
| "fetched (x # tr) = fetched tr"

fun checkpoints :: "action list \<Rightarrow> int list" where
  "checkpoints [] = []"
| "checkpoints (WriteProgress s t l # tr) = l # checkpoints tr"
| "checkpoints (x # tr) = checkpoints tr"

fun sleeps :: "action list \<Rightarrow> nat list" where
  "sleeps [] = []"
| "sleeps (Sleep ms # tr) = ms # sleeps tr"
| "sleeps (x # tr) = sleeps tr"

text \<open>
  \<open>flush_then_checkpoint tr\<close>: in \<open>tr\<close> every call of \<^verbatim>\<open>append_chunk_data\<close> is followed at
  once by a write of the progress file, and every write of the progress file follows such a
  call at once.
\<close>

fun flush_then_checkpoint :: "action list \<Rightarrow> bool" where
  "flush_then_checkpoint [] = True"
| "flush_then_checkpoint (AppendChunkData rows # WriteProgress s t l # tr) = flush_then_checkpoint tr"
| "flush_then_checkpoint (AppendChunkData rows # tr) = False"
| "flush_then_checkpoint (WriteProgress s t l # tr) = False"
| "flush_then_checkpoint (x # tr) = flush_then_checkpoint tr"

text \<open>An action that writes no file.\<close>

fun writes_nothing :: "action \<Rightarrow> bool" where
  "writes_nothing (AppendChunkData rows) = False"
| "writes_nothing (WriteProgress s t l) = False"
| "writes_nothing x = True"

text \<open>The invariant of one entry of \<^verbatim>\<open>chunk_metrics\<close>, and the order in which entries grow.\<close>

definition metrics_inv :: "daily_metrics \<Rightarrow> bool" where
  "metrics_inv dm =
     (active_addresses dm = senders dm \<union> receivers dm \<and> float_nonneg (volume dm) \<and>
      finite (senders dm) \<and> finite (receivers dm))"

definition grows :: "daily_metrics \<Rightarrow> daily_metrics \<Rightarrow> bool" where
  "grows dm dm' =
     (transactions dm \<le> transactions dm' \<and>
      card (active_addresses dm) \<le> card (active_addresses dm') \<and>
      card (senders dm) \<le> card (senders dm') \<and>
      card (receivers dm) \<le> card (receivers dm'))"

text \<open>The part of an entry that does not involve float addition.\<close>

definition counts_and_sets :: "daily_metrics \<Rightarrow> nat \<times> address set \<times> address set \<times> address set" where
  "counts_and_sets dm = (transactions dm, active_addresses dm, senders dm, receivers dm)"

subsection \<open>A five-block chain and some logs\<close>

text \<open>
  Blocks 1 to 5 with the timestamps 100, 200, 300, 400, 500; a Transfer of \<open>10^18\<close> base units
  from A to B in block 2 and one of \<open>2 * 10^18\<close> from B to C in block 4.
\<close>

definition transfer_event_signature :: bytes where
  "transfer_event_signature =
     [0xdd, 0xf2, 0x52, 0xad, 0x1b, 0xe2, 0xc8, 0x9b, 0x69, 0xc2, 0xb0, 0x68, 0xfc, 0x37, 0x8d, 0xaa,
      0x95, 0x2b, 0xa7, 0xf1, 0x63, 0xc4, 0xa1, 0x16, 0x28, 0xf5, 0x5a, 0x4d, 0xf5, 0x23, 0xb3, 0xef]"

definition address_topic :: "byte \<Rightarrow> bytes" where
  "address_topic a = replicate 12 0 @ replicate 20 a"

text \<open>A payload of 32 bytes from its last bytes.\<close>

definition uint256_bytes :: "bytes \<Rightarrow> bytes" where
  "uint256_bytes low = replicate (32 - length low) 0 @ low"

definition transfer_log :: "int \<Rightarrow> byte \<Rightarrow> byte \<Rightarrow> bytes \<Rightarrow> raw_log" where
  "transfer_log n a b low =
     \<lparr>blockNumber = n, topics = [transfer_event_signature, address_topic a, address_topic b],
      data = uint256_bytes low\<rparr>"

text \<open>\<open>10^18\<close> is \<^verbatim>\<open>0x0DE0B6B3A7640000\<close> and \<open>2 * 10^18\<close> is \<^verbatim>\<open>0x1BC16D674EC80000\<close>.\<close>

definition one_token :: bytes where
  "one_token = [0x0D, 0xE0, 0xB6, 0xB3, 0xA7, 0x64, 0x00, 0x00]"

definition two_tokens :: bytes where
  "two_tokens = [0x1B, 0xC1, 0x6D, 0x67, 0x4E, 0xC8, 0x00, 0x00]"

definition four_topic_log :: raw_log where
  "four_topic_log =
     \<lparr>blockNumber = 2,
      topics = [transfer_event_signature, address_topic 0xA, address_topic 0xB, uint256_bytes [7]],
      data = uint256_bytes [1]\<rparr>"

definition two_topic_log :: raw_log where
  "two_topic_log =
     \<lparr>blockNumber = 2, topics = [transfer_event_signature, address_topic 0xA],
      data = uint256_bytes [1]\<rparr>"

definition chain5 :: env where
  "chain5 =
     \<lparr>eth_block_number = (\<lambda>t. Some 5),
      eth_get_block = (\<lambda>t n. if 1 \<le> n \<and> n \<le> 5 then Some (100 * n) else None),
      eth_get_logs = (\<lambda>t a b. Some (filter (\<lambda>l. a \<le> blockNumber l \<and> blockNumber l \<le> b)
         [transfer_log 2 0xA 0xB one_token, transfer_log 4 0xB 0xC two_tokens])),
      date_of_timestamp = (\<lambda>ts. ts div 86400)\<rparr>"

text \<open>The same chain with no Transfer log, and behind a node whose first two calls of
  \<^verbatim>\<open>get_logs\<close> fail.\<close>

definition quiet5 :: env where
  "quiet5 = chain5\<lparr>eth_get_logs := (\<lambda>t a b. Some [])\<rparr>"

definition flaky5 :: env where
  "flaky5 = chain5\<lparr>eth_get_logs := (\<lambda>t a b. if t < 2 then None else Some [])\<rparr>"

definition world0 :: world where
  "world0 = \<lparr>tick = 0, csv_file = None, progress_file = None, trace = []\<rparr>"

text \<open>Three transfers of one day: \<open>2^53\<close> tokens, one token, one token.\<close>

definition big_transfer :: transfer where
  "big_transfer = \<lparr>from_address = replicate 20 0xA, to_address = replicate 20 0xB,
                    value_tokens = Finite (2 ^ 53)\<rparr>"

definition unit_transfer :: transfer where
  "unit_transfer = \<lparr>from_address = replicate 20 0xB, to_address = replicate 20 0xC,
                     value_tokens = Finite 1\<rparr>"

text \<open>The transfers of one date in a list of dated transfers, and the entry that
  \<^verbatim>\<open>chunk_metrics[date_key]\<close> reads.\<close>

definition day_transfers :: "date \<Rightarrow> (date \<times> transfer) list \<Rightarrow> transfer list" where
  "day_transfers k es = map snd (filter (\<lambda>p. fst p = k) es)"

definition entry_of :: "chunk_metrics \<Rightarrow> date \<Rightarrow> daily_metrics" where
  "entry_of cm k = (case map_of cm k of None \<Rightarrow> default_metrics | Some dm \<Rightarrow> dm)"

text \<open>The entry of day 0 after a transfer of nothing from A to B, and after a second one from
  B to C.\<close>

definition day0_after_one :: daily_metrics where
  "day0_after_one =
     \<lparr>transactions = 1, active_addresses = {replicate 20 0xB, replicate 20 0xA},
      volume = Finite 0, senders = {replicate 20 0xA}, receivers = {replicate 20 0xB}\<rparr>"

definition day0_after_two :: daily_metrics where
  "day0_after_two =
     \<lparr>transactions = 2,
      active_addresses = {replicate 20 0xC, replicate 20 0xB, replicate 20 0xA},
      volume = Finite 0, senders = {replicate 20 0xB, replicate 20 0xA},
      receivers = {replicate 20 0xC, replicate 20 0xB}\<rparr>"

text \<open>\<open>quietly w w'\<close>: from \<open>w\<close> to \<open>w'\<close> no file has changed and no action has written one.\<close>

definition quietly :: "world \<Rightarrow> world \<Rightarrow> bool" where
  "quietly w w' =
     (csv_file w' = csv_file w \<and> progress_file w' = progress_file w \<and>
      (\<exists>new. trace w' = trace w @ new \<and> list_all writes_nothing new))"

text \<open>
  The chain with two transfers of nothing, behind a node that does not answer \<^verbatim>\<open>get_block\<close>
  at its calls 2, 3 and 4.
\<close>

definition stall5 :: env where
  "stall5 =
     \<lparr>eth_block_number = (\<lambda>t. Some 5),
      eth_get_block = (\<lambda>t n. if 2 \<le> t \<and> t \<le> 4 then None
                               else if 1 \<le> n \<and> n \<le> 5 then Some (100 * n) else None),
      eth_get_logs = (\<lambda>t a b. Some (filter (\<lambda>l. a \<le> blockNumber l \<and> blockNumber l \<le> b)
         [transfer_log 2 0xA 0xB [0], transfer_log 4 0xB 0xC [0]])),
      date_of_timestamp = (\<lambda>ts. ts div 86400)\<rparr>"

section \<open>Properties\<close>

subsection \<open>Rounding to binary64\<close>

lemma pow2_powi: "pow2 e = 2 powi e"
  by (simp add: pow2_def power_int_def field_simps power_inverse)

lemma pow2_pos: "0 < pow2 e"
  by (simp add: pow2_powi)

lemma pow2_add: "pow2 (a + b) = pow2 a * pow2 b"
  by (simp add: pow2_powi power_int_add)

lemma pow2_nat: "0 \<le> e \<Longrightarrow> pow2 e = 2 ^ nat e"
  by (simp add: pow2_def)

lemma pow2_diff: "pow2 (a - b) = pow2 a / pow2 b"
  by (simp add: pow2_powi power_int_diff)

lemma round_half_even_err: "\<bar>of_int (round_half_even q) - q\<bar> \<le> 1 / 2"
proof -
  have "of_int \<lfloor>q\<rfloor> \<le> q" "q < of_int \<lfloor>q\<rfloor> + 1" by linarith+
  then show ?thesis
    by (auto simp: round_half_even_def Let_def)
qed

lemma round_half_even_nonneg: "0 \<le> q \<Longrightarrow> 0 \<le> round_half_even q"
  by (auto simp: round_half_even_def Let_def)

lemma round_binary64_nonneg: "float_nonneg (round_binary64 q)"
proof (cases "q \<le> 0")
  case True
  then show ?thesis by (simp add: round_binary64_def float_nonneg_def)
next
  case False
  then have "0 \<le> q / pow2 e" for e
    using pow2_pos [of e] by simp
  then have "0 \<le> of_int (round_half_even (q / pow2 e)) * pow2 e" for e
    using round_half_even_nonneg [of "q / pow2 e"] pow2_pos [of e] by simp
  then show ?thesis
    by (simp add: round_binary64_def float_nonneg_def Let_def)
qed

lemma ilog2_lower:
  assumes "0 < q"
  shows "pow2 (ilog2 q) \<le> q"
proof -
  obtain n d where nd: "quotient_of q = (n, d)" by (cases "quotient_of q")
  then have q: "q = of_int n / of_int d" and d: "0 < d"
    by (auto dest: quotient_of_div quotient_of_denom_pos)
  with assms have n: "0 < n"
    by (simp add: zero_less_divide_iff)
  define k where "k = bitlen n - bitlen d"
  have il: "ilog2 q = (if pow2 k \<le> q then k else k - 1)"
    by (simp add: ilog2_def nd k_def Let_def)
  show ?thesis
  proof (cases "pow2 k \<le> q")
    case True
    then show ?thesis by (simp add: il)
  next
    case False
    have bn: "1 \<le> bitlen n" and bd: "1 \<le> bitlen d"
      using n d by (auto simp: bitlen_alt_def)
    have ln: "(2::int) ^ nat (bitlen n - 1) \<le> n" and ud: "d < 2 ^ nat (bitlen d)"
      using bitlen_bounds [OF n] bitlen_bounds [OF d] by auto
    have "pow2 (k - 1) = pow2 (bitlen n - 1) / pow2 (bitlen d)"
      by (simp add: k_def pow2_diff [symmetric] algebra_simps)
    also have "\<dots> = 2 ^ nat (bitlen n - 1) / 2 ^ nat (bitlen d)"
      using bn bd by (simp add: pow2_nat)
    finally have e: "pow2 (k - 1) = 2 ^ nat (bitlen n - 1) / 2 ^ nat (bitlen d)" .
    have "(2::rat) ^ nat (bitlen n - 1) \<le> of_int n"
      using ln by (metis of_int_le_iff of_int_numeral of_int_power)
    moreover have "of_int d < (2::rat) ^ nat (bitlen d)"
      using ud by (metis of_int_less_iff of_int_numeral of_int_power)
    ultimately have "(2::rat) ^ nat (bitlen n - 1) * of_int d \<le> of_int n * 2 ^ nat (bitlen d)"
      using n d by (intro mult_mono) auto
    then have "pow2 (k - 1) \<le> q"
      using d by (simp add: e q field_simps)
    with False show ?thesis by (simp add: il)
  qed
qed

lemma round_binary64_cases:
  assumes q: "pow2 (- 1022) \<le> q"
  shows "\<exists>r. \<bar>r - q\<bar> \<le> q / 2 ^ 53 \<and>
             round_binary64 q = (if pow2 1024 \<le> r then Infinity else Finite r)"
proof -
  have q0: "0 < q" using q pow2_pos [of "- 1022"] by linarith
  define e where "e = max (ilog2 q - 52) (- 1074)"
  define r where "r = of_int (round_half_even (q / pow2 e)) * pow2 e"
  have r_eq: "round_binary64 q = (if pow2 1024 \<le> r then Infinity else Finite r)"
    using q0 by (simp add: round_binary64_def e_def r_def Let_def)
  have "\<bar>of_int (round_half_even (q / pow2 e)) - q / pow2 e\<bar> \<le> 1 / 2"
    by (rule round_half_even_err)
  then have "\<bar>of_int (round_half_even (q / pow2 e)) - q / pow2 e\<bar> * pow2 e \<le> 1 / 2 * pow2 e"
    using pow2_pos [of e] by (intro mult_right_mono) auto
  then have "\<bar>(of_int (round_half_even (q / pow2 e)) - q / pow2 e) * pow2 e\<bar> \<le> pow2 e / 2"
    using pow2_pos [of e] by (simp add: abs_mult)
  then have err: "\<bar>r - q\<bar> \<le> pow2 e / 2"
    using pow2_pos [of e] by (simp add: r_def algebra_simps)
  have "pow2 (e + 52) \<le> q"
  proof (cases "ilog2 q - 52 \<ge> - 1074")
    case True
    then have "e + 52 = ilog2 q" by (simp add: e_def)
    then show ?thesis using ilog2_lower [OF q0] by simp
  next
    case False
    then have *: "e + 52 = - 1022" by (simp add: e_def)
    show ?thesis unfolding * using q .
  qed
  then have "pow2 e * 2 ^ 52 \<le> q"
    by (simp add: pow2_add pow2_nat)
  then have "pow2 e / 2 \<le> q / 2 ^ 53"
    by (simp add: field_simps)
  with err have "\<bar>r - q\<bar> \<le> q / 2 ^ 53" by linarith
  with r_eq show ?thesis by blast
qed

lemma pow2_1022_small: "pow2 (- 1022) \<le> 1 / 2 ^ 61"
proof -
  have "(2::rat) ^ 61 \<le> 2 ^ 1022" by (rule power_increasing) auto
  then show ?thesis by (simp add: pow2_def frac_le)
qed

lemma int_truediv_1e18_error:
  assumes v: "0 \<le> v" and x: "int_truediv_1e18 v = Some x"
  shows "\<exists>a. x = Finite a \<and>
    \<bar>a - of_int v / 10 ^ 18\<bar> \<le> of_int v / 10 ^ 18 * (1 / 2 ^ 52 + 1 / 2 ^ 106)"
proof (cases "v = 0")
  case True
  with x show ?thesis
    by (auto simp: int_truediv_1e18_def float_of_int_def float_div_def round_binary64_def
        split: float64.splits)
next
  case False
  with v have "1 \<le> v" by simp
  then have v1: "(1::rat) \<le> of_int v" by simp
  from x obtain y where y: "round_binary64 (of_int v) = Finite y"
    and x_eq: "x = round_binary64 (y / 10 ^ 18)"
    by (auto simp: int_truediv_1e18_def float_of_int_def float_div_def split: float64.splits)
  have small: "pow2 (- 1022) \<le> 1 / 2 ^ 61" by (rule pow2_1022_small)
  then have "pow2 (- 1022) \<le> of_int v" using v1 by simp
  from round_binary64_cases [OF this] y
  have ey: "\<bar>y - of_int v\<bar> \<le> of_int v / 2 ^ 53" and ylt: "y < pow2 1024"
    by (auto split: if_splits)
  define V :: rat where "V = of_int v / 10 ^ 18"
  define Y :: rat where "Y = y / 10 ^ 18"
  have V1: "1 / 10 ^ 18 \<le> V" using v1 by (simp add: V_def divide_right_mono)
  have "\<bar>Y - V\<bar> = \<bar>y - of_int v\<bar> / 10 ^ 18"
    by (simp add: Y_def V_def diff_divide_distrib [symmetric])
  also have "\<dots> \<le> (of_int v / 2 ^ 53) / 10 ^ 18"
    using ey by (rule divide_right_mono) simp
  finally have eY: "\<bar>Y - V\<bar> \<le> V / 2 ^ 53" by (simp add: V_def)
  have "V / 2 ^ 53 \<le> V / 2" using V1 by (simp add: field_simps)
  with eY have Yhalf: "V / 2 \<le> Y" by linarith
  have "(1::rat) / 2 ^ 61 \<le> (1 / 10 ^ 18) / 2" by simp
  also have "\<dots> \<le> V / 2" using V1 by simp
  finally have "pow2 (- 1022) \<le> Y" using small Yhalf by linarith
  from round_binary64_cases [OF this] obtain a
    where ea: "\<bar>a - Y\<bar> \<le> Y / 2 ^ 53"
      and xa: "round_binary64 Y = (if pow2 1024 \<le> a then Infinity else Finite a)"
    by blast
  have Y0: "0 \<le> Y" using Yhalf V1 by simp
  have "y \<le> pow2 1024" using ylt by simp 
  then have "Y \<le> pow2 1024 / 10 ^ 18" by (simp add: Y_def divide_right_mono)
  moreover have "a \<le> Y + Y / 2 ^ 53" using ea by linarith
  moreover have "Y + Y / 2 ^ 53 \<le> 2 * Y" using Y0 by (simp add: field_simps)
  moreover have "0 < pow2 1024" by (rule pow2_pos)
  ultimately have "a < pow2 1024" by (simp add: field_simps)
  then have xF: "x = Finite a" using xa by (simp add: x_eq Y_def)
  have "Y \<le> V + V / 2 ^ 53" using eY by linarith
  then have "Y / 2 ^ 53 \<le> (V + V / 2 ^ 53) / 2 ^ 53"
    by (rule divide_right_mono) simp
  then have "\<bar>a - V\<bar> \<le> V / 2 ^ 53 + (V + V / 2 ^ 53) / 2 ^ 53"
    using ea eY by linarith
  also have "\<dots> = V * (1 / 2 ^ 52 + 1 / 2 ^ 106)" by (simp add: field_simps)
  finally show ?thesis using xF by (simp add: V_def)
qed


lemma big_endian_nonneg: "0 \<le> big_endian bs"
proof -
  have "0 \<le> a \<Longrightarrow> 0 \<le> foldl (\<lambda>a b. a * 256 + uint b) a bs" for a :: int
    by (induction bs arbitrary: a) auto
  then show ?thesis by (simp add: big_endian_def)
qed

lemma decode_transfer_event_Some:
  "decode_transfer_event ev = Some td \<Longrightarrow>
     data ev \<noteq> [] \<and> int_truediv_1e18 (big_endian (data ev)) = Some (value_tokens td)"
  by (auto simp: decode_transfer_event_def int_of_hex_def split: if_splits option.splits)

lemma pow2_mono: "a \<le> b \<Longrightarrow> pow2 a \<le> pow2 b"
  by (simp add: pow2_powi power_int_increasing)

lemma pow2_strict_mono: "a < b \<Longrightarrow> pow2 a < pow2 b"
  by (simp add: pow2_powi power_int_strict_increasing)

lemma ilog2_upper:
  assumes "0 < q"
  shows "q < pow2 (ilog2 q + 1)"
proof -
  obtain n d where nd: "quotient_of q = (n, d)" by (cases "quotient_of q")
  then have q: "q = of_int n / of_int d" and d: "0 < d"
    by (auto dest: quotient_of_div quotient_of_denom_pos)
  with assms have n: "0 < n"
    by (simp add: zero_less_divide_iff)
  define k where "k = bitlen n - bitlen d"
  have il: "ilog2 q = (if pow2 k \<le> q then k else k - 1)"
    by (simp add: ilog2_def nd k_def Let_def)
  show ?thesis
  proof (cases "pow2 k \<le> q")
    case False
    then show ?thesis by (simp add: il)
  next
    case True
    have bn: "1 \<le> bitlen n" and bd: "1 \<le> bitlen d"
      using n d by (auto simp: bitlen_alt_def)
    have un: "n < 2 ^ nat (bitlen n)" and ld: "(2::int) ^ nat (bitlen d - 1) \<le> d"
      using bitlen_bounds [OF n] bitlen_bounds [OF d] by auto
    have "pow2 (k + 1) = pow2 (bitlen n) / pow2 (bitlen d - 1)"
      by (simp add: k_def pow2_diff [symmetric] algebra_simps)
    also have "\<dots> = 2 ^ nat (bitlen n) / 2 ^ nat (bitlen d - 1)"
      using bn bd by (simp add: pow2_nat)
    finally have e: "pow2 (k + 1) = 2 ^ nat (bitlen n) / 2 ^ nat (bitlen d - 1)" .
    have "of_int n < (2::rat) ^ nat (bitlen n)"
      using un by (metis of_int_less_iff of_int_numeral of_int_power)
    moreover have "(2::rat) ^ nat (bitlen d - 1) \<le> of_int d"
      using ld by (metis of_int_le_iff of_int_numeral of_int_power)
    ultimately have "of_int n * (2::rat) ^ nat (bitlen d - 1) < 2 ^ nat (bitlen n) * of_int d"
      using n d by (intro mult_less_le_imp_less) auto
    then have "of_int n / of_int d < (2::rat) ^ nat (bitlen n) / 2 ^ nat (bitlen d - 1)"
      using d by (simp add: field_simps)
    then have "q < pow2 (k + 1)"
      unfolding e q .
    with True show ?thesis by (simp add: il)
  qed
qed

lemma round_half_even_upper: "q < of_int N - 1 / 2 \<Longrightarrow> round_half_even q \<le> N - 1"
proof -
  assume a: "q < of_int N - 1 / 2"
  have "of_int (round_half_even q) \<le> q + 1 / 2"
    using round_half_even_err [of q] by linarith
  with a have "(of_int (round_half_even q) :: rat) < of_int N" by linarith
  then show ?thesis by simp
qed

lemma round_half_even_lower:
  assumes "of_int N - 1 / 2 \<le> q" and "even N"
  shows "N \<le> round_half_even q"
proof -
  have fl: "of_int \<lfloor>q\<rfloor> \<le> q" "q < of_int \<lfloor>q\<rfloor> + 1" by linarith+
  with assms(1) have "(of_int N :: rat) < of_int \<lfloor>q\<rfloor> + 3 / 2" by linarith
  then have "(of_int N :: rat) < of_int (\<lfloor>q\<rfloor> + 2)" by simp
  then have "N < \<lfloor>q\<rfloor> + 2" by (simp only: of_int_less_iff)
  then consider "N \<le> \<lfloor>q\<rfloor>" | "\<lfloor>q\<rfloor> = N - 1" by linarith
  then show ?thesis
  proof cases
    case 1
    then show ?thesis by (auto simp: round_half_even_def Let_def)
  next
    case 2
    with assms(1) have "1 / 2 \<le> q - of_int \<lfloor>q\<rfloor>" by simp
    moreover from 2 assms(2) have "odd \<lfloor>q\<rfloor>" by simp
    ultimately show ?thesis using 2 by (auto simp: round_half_even_def Let_def)
  qed
qed

lemma round_binary64_overflow:
  assumes q0: "0 < q"
  shows "round_binary64 q = Infinity \<longleftrightarrow> pow2 1024 - pow2 970 \<le> q"
proof -
  define e where "e = max (ilog2 q - 52) (- 1074)"
  define m where "m = round_half_even (q / pow2 e)"
  have inf: "round_binary64 q = Infinity \<longleftrightarrow> pow2 1024 \<le> of_int m * pow2 e"
    using q0 by (simp add: round_binary64_def e_def m_def Let_def)
  have pe: "0 < pow2 e" by (rule pow2_pos)
  have p970: "pow2 1024 = pow2 970 * 2 ^ 54" "pow2 1023 = pow2 970 * 2 ^ 53"
    "pow2 971 = pow2 970 * 2" "pow2 972 = pow2 970 * 4" and p0: "0 < pow2 970"
    by (simp_all add: pow2_def flip: power_add)
  show ?thesis
  proof
    assume big: "pow2 1024 - pow2 970 \<le> q"
    have "1023 \<le> ilog2 q"
    proof (rule ccontr)
      assume "\<not> 1023 \<le> ilog2 q"
      then have "pow2 (ilog2 q + 1) \<le> pow2 1023" by (intro pow2_mono) simp
      with ilog2_upper [OF q0] big show False using p970 p0 by simp
    qed
    then have e_eq: "e = ilog2 q - 52" and e971: "971 \<le> e" by (simp_all add: e_def)
    show "round_binary64 q = Infinity"
    proof (cases "e = 971")
      case True
      have "(2 ^ 53 - 1 / 2) * pow2 971 \<le> q"
        using big p970 by (simp add: algebra_simps)
      then have "of_int (2 ^ 53) - 1 / 2 \<le> q / pow2 e"
        using pe True by (simp add: pos_le_divide_eq)
      then have "2 ^ 53 \<le> m"
        unfolding m_def by (rule round_half_even_lower) simp
      then have "(2 ^ 53 :: rat) \<le> of_int m"
        by (metis of_int_le_iff of_int_numeral of_int_power)
      then have "2 ^ 53 * pow2 e \<le> of_int m * pow2 e"
        using pe by (intro mult_right_mono) auto
      then show ?thesis
        using True p970 by (simp add: inf)
    next
      case False
      with e971 have e972: "972 \<le> e" by simp
      have "pow2 (e + 52) \<le> q" using ilog2_lower [OF q0] by (simp add: e_eq)
      then have "pow2 e * 2 ^ 52 \<le> q" by (simp add: pow2_add pow2_nat)
      then have "of_int (2 ^ 52) \<le> q / pow2 e"
        using pe by (simp add: pos_le_divide_eq mult.commute)
      then have "2 ^ 52 \<le> \<lfloor>q / pow2 e\<rfloor>" by (simp only: le_floor_iff)
      moreover have "\<lfloor>q / pow2 e\<rfloor> \<le> m"
        by (auto simp: m_def round_half_even_def Let_def)
      ultimately have "2 ^ 52 \<le> m" by linarith
      then have "(2 ^ 52 :: rat) \<le> of_int m"
        by (metis of_int_le_iff of_int_numeral of_int_power)
      then have "2 ^ 52 * pow2 972 \<le> of_int m * pow2 e"
        using pow2_mono [OF e972] pow2_pos [of 972] by (intro mult_mono) auto
      then show ?thesis
        using p970 by (simp add: inf)
    qed
  next
    assume i: "round_binary64 q = Infinity"
    show "pow2 1024 - pow2 970 \<le> q"
    proof (rule ccontr)
      assume "\<not> pow2 1024 - pow2 970 \<le> q"
      then have small: "q < pow2 1024 - pow2 970" by simp
      have "ilog2 q < 1024"
      proof (rule ccontr)
        assume "\<not> ilog2 q < 1024"
        then have "pow2 1024 \<le> pow2 (ilog2 q)" by (intro pow2_mono) simp
        with ilog2_lower [OF q0] small p0 show False by simp
      qed
      then have e971: "e \<le> 971" by (simp add: e_def)
      have "of_int m * pow2 e < pow2 1024"
      proof (cases "e = 971")
        case True
        have "q < (2 ^ 53 - 1 / 2) * pow2 971"
          using small p970 by (simp add: algebra_simps)
        then have "q / pow2 e < of_int (2 ^ 53) - 1 / 2"
          using pe True by (simp add: pos_divide_less_eq)
        then have "m \<le> 2 ^ 53 - 1"
          unfolding m_def by (rule round_half_even_upper)
        then have "(of_int m :: rat) \<le> of_int (2 ^ 53 - 1)" by (simp only: of_int_le_iff)
        then have "(of_int m :: rat) \<le> 2 ^ 53 - 1" by simp
        then have "of_int m * pow2 e \<le> (2 ^ 53 - 1) * pow2 e"
          using pe by (intro mult_right_mono) auto
        then show ?thesis using True p970 p0 by (simp add: algebra_simps)
      next
        case False
        with e971 have e970: "e \<le> 970" by simp
        have "of_int m \<le> q / pow2 e + 1 / 2"
          using round_half_even_err [of "q / pow2 e"] unfolding m_def by linarith
        then have "of_int m * pow2 e \<le> (q / pow2 e + 1 / 2) * pow2 e"
          using pe by (intro mult_right_mono) auto
        also have "\<dots> = q + pow2 e / 2" using pe by (simp add: algebra_simps)
        finally have 1: "of_int m * pow2 e \<le> q + pow2 e / 2" .
        have "ilog2 q + 1 \<le> e + 53" by (simp add: e_def)
        then have "pow2 (ilog2 q + 1) \<le> pow2 (e + 53)" by (rule pow2_mono)
        also have "\<dots> = pow2 e * 2 ^ 53" by (simp add: pow2_add pow2_nat)
        finally have "q < pow2 e * 2 ^ 53" using ilog2_upper [OF q0] by simp
        moreover have "pow2 e \<le> pow2 970" using e970 by (rule pow2_mono)
        ultimately have "q + pow2 e / 2 < pow2 970 * 2 ^ 53 + pow2 970"
          using pe by (intro add_less_le_mono) (auto intro: order_less_le_trans)
        with 1 show ?thesis using p970 p0 by simp
      qed
      with i show False by (simp add: inf)
    qed
  qed
qed

lemma float_of_int_overflow:
  assumes "0 \<le> v"
  shows "float_of_int v = None \<longleftrightarrow> 2 ^ 1024 - 2 ^ 970 \<le> v"
proof (cases "v = 0")
  case True
  then show ?thesis by (simp add: float_of_int_def round_binary64_def)
next
  case False
  with assms have "(0::rat) < of_int v" by simp
  from round_binary64_overflow [OF this]
  have "round_binary64 (of_int v) = Infinity \<longleftrightarrow> pow2 1024 - pow2 970 \<le> of_int v" .
  also have "pow2 1024 - pow2 970 = (of_int (2 ^ 1024 - 2 ^ 970) :: rat)"
    by (simp add: pow2_def)
  also have "(of_int (2 ^ 1024 - 2 ^ 970) :: rat) \<le> of_int v \<longleftrightarrow> 2 ^ 1024 - 2 ^ 970 \<le> v"
    by (simp only: of_int_le_iff)
  finally have "round_binary64 (of_int v) = Infinity \<longleftrightarrow> 2 ^ 1024 - 2 ^ 970 \<le> v" .
  moreover have "float_of_int v = None \<longleftrightarrow> round_binary64 (of_int v) = Infinity"
    by (cases "round_binary64 (of_int v)") (simp_all add: float_of_int_def)
  ultimately show ?thesis by (simp only:)
qed

subsection \<open>The decoder\<close>

lemma int_truediv_1e18_nonneg: "int_truediv_1e18 v = Some x \<Longrightarrow> float_nonneg x"
  using round_binary64_nonneg
  by (auto simp: int_truediv_1e18_def float_div_def float_of_int_def
      split: option.splits float64.splits)

lemma decode_transfer_event_nonneg:
  "decode_transfer_event ev = Some td \<Longrightarrow> float_nonneg (value_tokens td)"
  using decode_transfer_event_Some int_truediv_1e18_nonneg by blast

lemma decode_defined_iff:
  "decode_transfer_event ev \<noteq> None \<longleftrightarrow>
      3 \<le> length (topics ev) \<and> 20 \<le> length (topics ev ! 1) \<and> 20 \<le> length (topics ev ! 2) \<and>
      data ev \<noteq> [] \<and> big_endian (data ev) < 2 ^ 1024 - 2 ^ 970"
proof -
  have "decode_transfer_event ev \<noteq> None \<longleftrightarrow>
      3 \<le> length (topics ev) \<and> 20 \<le> length (topics ev ! 1) \<and> 20 \<le> length (topics ev ! 2) \<and>
      data ev \<noteq> [] \<and> float_of_int (big_endian (data ev)) \<noteq> None"
    by (auto simp: decode_transfer_event_def address_of_topic_def int_of_hex_def
        int_truediv_1e18_def split: option.splits if_splits)
  moreover have "float_of_int (big_endian (data ev)) \<noteq> None \<longleftrightarrow>
      big_endian (data ev) < 2 ^ 1024 - 2 ^ 970"
    using float_of_int_overflow [OF big_endian_nonneg, of "data ev"] by linarith
  ultimately show ?thesis by (simp only:)
qed

lemma decode_one_base_unit:
  "decode_transfer_event (transfer_log 2 0xA 0xB [1]) =
     Some \<lparr>from_address = replicate 20 0xA, to_address = replicate 20 0xB,
           value_tokens = Finite (1298074214633707 / 2 ^ 110)\<rparr>"
  by code_simp

text \<open>
  C2 (as amended): the decoded amount is a binary64 float, the payload converted to a float
  and divided by the float \<open>1e18\<close>; it is within the relative error \<open>2^-52 + 2^-106\<close> of the
  exact quotient of the payload by \<open>10^18\<close>, and is not that quotient in general.
\<close>

theorem decode_amount_is_float:
  assumes "decode_transfer_event ev = Some td"
  shows "\<exists>a. value_tokens td = Finite a \<and>
    \<bar>a - of_int (big_endian (data ev)) / 10 ^ 18\<bar>
      \<le> of_int (big_endian (data ev)) / 10 ^ 18 * (1 / 2 ^ 52 + 1 / 2 ^ 106)"
proof -
  from assms have "int_truediv_1e18 (big_endian (data ev)) = Some (value_tokens td)"
    by (rule decode_transfer_event_Some [THEN conjunct2])
  from int_truediv_1e18_error [OF big_endian_nonneg this] show ?thesis .
qed

theorem decode_amount_is_float_witness:
  "decode_transfer_event (transfer_log 2 0xA 0xB [1]) =
     Some \<lparr>from_address = replicate 20 0xA, to_address = replicate 20 0xB,
           value_tokens = Finite (1298074214633707 / 2 ^ 110)\<rparr> \<and>
   (\<exists>a. Finite (1298074214633707 / 2 ^ 110) = Finite a \<and>
    \<bar>a - of_int (big_endian (data (transfer_log 2 0xA 0xB [1]))) / 10 ^ 18\<bar>
      \<le> of_int (big_endian (data (transfer_log 2 0xA 0xB [1]))) / 10 ^ 18 *
         (1 / 2 ^ 52 + 1 / 2 ^ 106))"
  using decode_amount_is_float [OF decode_one_base_unit] decode_one_base_unit by simp

text \<open>
  The claim as stated fails for a payload of one base unit: the decoded amount is the float
  nearest to \<open>10^-18\<close>, which is not \<open>1 / 10^18\<close>.
\<close>

theorem decode_amount_not_exact:
  "big_endian (data (transfer_log 2 0xA 0xB [1])) = 1 \<and>
   map_option value_tokens (decode_transfer_event (transfer_log 2 0xA 0xB [1])) =
     Some (Finite (1298074214633707 / 2 ^ 110)) \<and>
   (1298074214633707 / 2 ^ 110 :: rat) \<noteq> 1 / 10 ^ 18"
proof -
  have "big_endian (data (transfer_log 2 0xA 0xB [1])) = 1" by code_simp
  moreover have "(1298074214633707 / 2 ^ 110 :: rat) \<noteq> 1 / 10 ^ 18" by simp
  ultimately show ?thesis by (simp add: decode_one_base_unit)
qed

text \<open>
  C6 (as amended): the decoder returns a transfer exactly when the log has at least three
  topics, topics 1 and 2 have at least 20 bytes each, the payload is not empty and its value
  is below \<open>2^1024 - 2^970\<close>, from where the conversion to a float overflows; in every other
  case it returns None. The scan passes over a log that does not decode: its metrics are
  those before the log.
\<close>

theorem decode_transfer_event_iff:
  "(decode_transfer_event ev \<noteq> None \<longleftrightarrow>
      3 \<le> length (topics ev) \<and> 20 \<le> length (topics ev ! 1) \<and> 20 \<le> length (topics ev ! 2) \<and>
      data ev \<noteq> [] \<and> big_endian (data ev) < 2 ^ 1024 - 2 ^ 970) \<and>
   (decode_transfer_event ev = None \<longrightarrow>
      process_events e cm (ev # evs) w =
        (case get_block_timestamp e (blockNumber ev) w of
           (None, w') \<Rightarrow> (None, w')
         | (Some ts, w') \<Rightarrow> process_events e cm evs w'))"
proof
  show "decode_transfer_event ev \<noteq> None \<longleftrightarrow>
      3 \<le> length (topics ev) \<and> 20 \<le> length (topics ev ! 1) \<and> 20 \<le> length (topics ev ! 2) \<and>
      data ev \<noteq> [] \<and> big_endian (data ev) < 2 ^ 1024 - 2 ^ 970"
    by (rule decode_defined_iff)
  show "decode_transfer_event ev = None \<longrightarrow>
      process_events e cm (ev # evs) w =
        (case get_block_timestamp e (blockNumber ev) w of
           (None, w') \<Rightarrow> (None, w')
         | (Some ts, w') \<Rightarrow> process_events e cm evs w')"
    by (simp split: prod.splits option.splits)
qed

theorem decode_transfer_event_iff_witness:
  "decode_transfer_event two_topic_log = None \<and>
   process_events chain5 [] [two_topic_log] world0 =
     (Some [], \<lparr>tick = 1, csv_file = None, progress_file = None, trace = [GetBlock 2]\<rparr>)"
proof -
  have n: "decode_transfer_event two_topic_log = None"
    by (simp add: decode_transfer_event_def two_topic_log_def address_of_topic_def
        address_topic_def)
  have g: "get_block_timestamp chain5 2 world0 =
      (Some 200, \<lparr>tick = 1, csv_file = None, progress_file = None, trace = [GetBlock 2]\<rparr>)"
    by code_simp
  have b: "blockNumber two_topic_log = 2" by (simp add: two_topic_log_def)
  show ?thesis
    using decode_transfer_event_iff [of two_topic_log chain5 "[]" "[]" world0] n g b by simp
qed

text \<open>A log of four topics with a payload decodes: the number of topics is not checked.\<close>

theorem decode_four_topics:
  "length (topics four_topic_log) = 4 \<and> decode_transfer_event four_topic_log \<noteq> None"
proof -
  have l: "length (topics four_topic_log) = 4" by (simp add: four_topic_log_def)
  have t: "length (topics four_topic_log ! 1) = 32" "length (topics four_topic_log ! 2) = 32"
    by (simp_all add: four_topic_log_def address_topic_def)
  have d: "data four_topic_log \<noteq> []" by (simp add: four_topic_log_def uint256_bytes_def)
  have "big_endian (data four_topic_log) = 1" by code_simp
  then have f: "big_endian (data four_topic_log) < 2 ^ 1024 - 2 ^ 970"
    by simp
  have "decode_transfer_event four_topic_log \<noteq> None"
    unfolding decode_defined_iff using l t d f by simp
  with l show ?thesis by simp
qed

subsection \<open>The per-day accumulation\<close>

lemma map_of_observe:
  "map_of (observe cm d td) = (map_of cm)(d \<mapsto> add_transfer (entry_of cm d) td)"
  by (simp add: observe_def update_conv' entry_of_def)

lemma float_add_nonneg: "float_nonneg (float_add x y)"
proof (cases x)
  case (Finite a)
  then show ?thesis
    by (cases y) (simp_all add: float_add_def round_binary64_nonneg, simp add: float_nonneg_def)
next
  case Infinity
  then show ?thesis by (simp add: float_add_def float_nonneg_def)
qed

lemma metrics_inv_default: "metrics_inv default_metrics"
  by (simp add: metrics_inv_def default_metrics_def float_nonneg_def)

lemma metrics_inv_add_transfer: "metrics_inv dm \<Longrightarrow> metrics_inv (add_transfer dm td)"
  using float_add_nonneg by (auto simp: metrics_inv_def add_transfer_def)

lemma grows_refl: "grows dm dm"
  by (simp add: grows_def)

lemma grows_trans: "grows a b \<Longrightarrow> grows b c \<Longrightarrow> grows a c"
  by (auto simp: grows_def)

lemma grows_add_transfer: "metrics_inv dm \<Longrightarrow> grows dm (add_transfer dm td)"
  by (auto simp: grows_def metrics_inv_def add_transfer_def intro!: card_mono)

lemma metrics_inv_entry_of:
  "\<forall>d dm. map_of cm d = Some dm \<longrightarrow> metrics_inv dm \<Longrightarrow> metrics_inv (entry_of cm k)"
  by (auto simp: entry_of_def metrics_inv_default split: option.splits)

lemma observe_invariant:
  assumes "\<forall>d dm. map_of cm d = Some dm \<longrightarrow> metrics_inv dm"
  shows "(\<forall>d dm. map_of (observe cm k td) d = Some dm \<longrightarrow> metrics_inv dm) \<and>
         (\<forall>d dm. map_of cm d = Some dm \<longrightarrow>
            (\<exists>dm'. map_of (observe cm k td) d = Some dm' \<and> grows dm dm'))"
proof -
  have i: "metrics_inv (entry_of cm k)" using assms by (rule metrics_inv_entry_of)
  show ?thesis
  proof (intro conjI allI impI)
    fix d dm assume "map_of (observe cm k td) d = Some dm"
    then show "metrics_inv dm"
      using assms i by (auto simp: map_of_observe metrics_inv_add_transfer split: if_splits)
  next
    fix d dm assume m: "map_of cm d = Some dm"
    show "\<exists>dm'. map_of (observe cm k td) d = Some dm' \<and> grows dm dm'"
    proof (cases "d = k")
      case True
      with m have "entry_of cm k = dm" by (simp add: entry_of_def)
      with i True show ?thesis
        by (auto simp: map_of_observe intro: grows_add_transfer)
    next
      case False
      with m show ?thesis by (simp add: map_of_observe grows_refl)
    qed
  qed
qed

lemma process_events_invariant:
  assumes "process_events e cm events w = (Some cm', w')"
    and "\<forall>d dm. map_of cm d = Some dm \<longrightarrow> metrics_inv dm"
  shows "(\<forall>d dm. map_of cm' d = Some dm \<longrightarrow> metrics_inv dm) \<and>
         (\<forall>d dm. map_of cm d = Some dm \<longrightarrow> (\<exists>dm'. map_of cm' d = Some dm' \<and> grows dm dm'))"
  using assms
proof (induction events arbitrary: cm w)
  case Nil
  then show ?case by (auto intro: grows_refl)
next
  case (Cons ev events)
  from Cons.prems(1) obtain ts w1 where
    g: "get_block_timestamp e (blockNumber ev) w = (Some ts, w1)"
    by (auto split: prod.splits option.splits)
  show ?case
  proof (cases "decode_transfer_event ev")
    case None
    with Cons.prems(1) g have "process_events e cm events w1 = (Some cm', w')" by simp
    from Cons.IH [OF this Cons.prems(2)] show ?thesis .
  next
    case (Some td)
    let ?cm = "observe cm (date_of_timestamp e ts) td"
    from Some Cons.prems(1) g have p: "process_events e ?cm events w1 = (Some cm', w')" by simp
    from observe_invariant [OF Cons.prems(2)]
    have o1: "\<forall>d dm. map_of ?cm d = Some dm \<longrightarrow> metrics_inv dm"
      and o2: "\<forall>d dm. map_of cm d = Some dm \<longrightarrow> (\<exists>dm'. map_of ?cm d = Some dm' \<and> grows dm dm')"
      by blast+
    from Cons.IH [OF p o1]
    have i1: "\<forall>d dm. map_of cm' d = Some dm \<longrightarrow> metrics_inv dm"
      and i2: "\<forall>d dm. map_of ?cm d = Some dm \<longrightarrow> (\<exists>dm'. map_of cm' d = Some dm' \<and> grows dm dm')"
      by blast+
    from o2 i2 have "\<forall>d dm. map_of cm d = Some dm \<longrightarrow> (\<exists>dm'. map_of cm' d = Some dm' \<and> grows dm dm')"
      by (meson grows_trans)
    with i1 show ?thesis by blast
  qed
qed

text \<open>
  C9: every entry that the loop over the events has built at any point satisfies the
  invariant (the active addresses are the senders and the receivers together, the volume is
  not negative), and the events that follow keep the entry, with counts and set sizes that do
  not decrease.
\<close>

theorem daily_metrics_invariant:
  assumes "process_events e [] events1 w = (Some cm1, w1)"
    and "process_events e cm1 events2 w1 = (Some cm2, w2)"
  shows "(\<forall>d dm. map_of cm1 d = Some dm \<longrightarrow> metrics_inv dm) \<and>
         (\<forall>d dm. map_of cm1 d = Some dm \<longrightarrow>
            (\<exists>dm'. map_of cm2 d = Some dm' \<and> metrics_inv dm' \<and> grows dm dm'))"
proof -
  have a: "\<forall>d dm. map_of cm1 d = Some dm \<longrightarrow> metrics_inv dm"
    using process_events_invariant [OF assms(1)] by simp
  from process_events_invariant [OF assms(2) a] a show ?thesis by blast
qed

lemma process_first_transfer:
  "process_events chain5 [] [transfer_log 2 0xA 0xB [0]] world0 =
     (Some [(0, day0_after_one)],
      \<lparr>tick = 1, csv_file = None, progress_file = None, trace = [GetBlock 2]\<rparr>)"
  by code_simp

lemma process_second_transfer:
  "process_events chain5 [(0, day0_after_one)] [transfer_log 4 0xB 0xC [0]]
     \<lparr>tick = 1, csv_file = None, progress_file = None, trace = [GetBlock 2]\<rparr> =
     (Some [(0, day0_after_two)],
      \<lparr>tick = 2, csv_file = None, progress_file = None, trace = [GetBlock 2, GetBlock 4]\<rparr>)"
  by code_simp

theorem daily_metrics_invariant_witness:
  "process_events chain5 [] [transfer_log 2 0xA 0xB [0]] world0 =
     (Some [(0, day0_after_one)],
      \<lparr>tick = 1, csv_file = None, progress_file = None, trace = [GetBlock 2]\<rparr>) \<and>
   process_events chain5 [(0, day0_after_one)] [transfer_log 4 0xB 0xC [0]]
     \<lparr>tick = 1, csv_file = None, progress_file = None, trace = [GetBlock 2]\<rparr> =
     (Some [(0, day0_after_two)],
      \<lparr>tick = 2, csv_file = None, progress_file = None, trace = [GetBlock 2, GetBlock 4]\<rparr>) \<and>
   metrics_inv day0_after_one \<and> metrics_inv day0_after_two \<and>
   grows day0_after_one day0_after_two"
proof -
  note t = daily_metrics_invariant [OF process_first_transfer process_second_transfer]
  have "map_of [(0::date, day0_after_one)] 0 = Some day0_after_one" by simp
  with t have "metrics_inv day0_after_one"
    and "\<exists>dm'. map_of [(0::date, day0_after_two)] 0 = Some dm' \<and> metrics_inv dm' \<and>
           grows day0_after_one dm'"
    by blast+
  then show ?thesis
    using process_first_transfer process_second_transfer by simp
qed

lemma foldl_add_transfer:
  "transactions (foldl add_transfer dm ts) = transactions dm + length ts"
  "senders (foldl add_transfer dm ts) = senders dm \<union> from_address ` set ts"
  "receivers (foldl add_transfer dm ts) = receivers dm \<union> to_address ` set ts"
  "active_addresses (foldl add_transfer dm ts) =
     active_addresses dm \<union> from_address ` set ts \<union> to_address ` set ts"
  by (induction ts arbitrary: dm) (auto simp: add_transfer_def)

lemma map_of_observe_all:
  "map_of (observe_all cm es) k =
     (if day_transfers k es = [] then map_of cm k
      else Some (foldl add_transfer (entry_of cm k) (day_transfers k es)))"
proof (induction es arbitrary: cm)
  case Nil
  then show ?case by (simp add: day_transfers_def)
next
  case (Cons p es)
  obtain d td where p: "p = (d, td)" by (cases p)
  show ?case
  proof (cases "d = k")
    case True
    then show ?thesis
      by (simp add: p Cons.IH day_transfers_def map_of_observe entry_of_def)
  next
    case False
    then show ?thesis
      by (simp add: p Cons.IH day_transfers_def map_of_observe entry_of_def)
  qed
qed

lemma counts_and_sets_foldl:
  "counts_and_sets (foldl add_transfer dm ts) =
     (transactions dm + size (mset ts),
      active_addresses dm \<union> from_address ` set_mset (mset ts) \<union> to_address ` set_mset (mset ts),
      senders dm \<union> from_address ` set_mset (mset ts),
      receivers dm \<union> to_address ` set_mset (mset ts))"
  by (simp add: counts_and_sets_def foldl_add_transfer)

text \<open>
  C5 (as amended): for two lists of the same dated transfers in any order, the accumulation
  from an empty dict has, for every date, the same transaction count and the same sets of
  senders, receivers and active addresses. The volume is a sum of floats in the order of the
  list and is left out.
\<close>

theorem observe_order_independent:
  assumes "mset es = mset es'"
  shows "map_option counts_and_sets (map_of (observe_all [] es) k) =
         map_option counts_and_sets (map_of (observe_all [] es') k)"
proof -
  have "mset (day_transfers k xs) = image_mset snd (filter_mset (\<lambda>p. fst p = k) (mset xs))"
    for xs :: "(date \<times> transfer) list"
    by (simp add: day_transfers_def)
  then have m: "mset (day_transfers k es) = mset (day_transfers k es')"
    using assms by simp
  then have "day_transfers k es = [] \<longleftrightarrow> day_transfers k es' = []"
    by (metis mset_zero_iff)
  with m show ?thesis
    by (simp add: map_of_observe_all counts_and_sets_foldl)
qed

theorem observe_order_independent_witness:
  "mset [(0::date, big_transfer), (0, unit_transfer), (0, unit_transfer)] =
     mset [(0, unit_transfer), (0, unit_transfer), (0, big_transfer)] \<and>
   map_option counts_and_sets
     (map_of (observe_all [] [(0, big_transfer), (0, unit_transfer), (0, unit_transfer)]) 0) =
   map_option counts_and_sets
     (map_of (observe_all [] [(0, unit_transfer), (0, unit_transfer), (0, big_transfer)]) 0)"
proof -
  have m: "mset [(0::date, big_transfer), (0, unit_transfer), (0, unit_transfer)] =
      mset [(0, unit_transfer), (0, unit_transfer), (0, big_transfer)]"
    by simp
  from observe_order_independent [OF m, of 0] m show ?thesis by blast
qed

text \<open>The amounts \<open>2^53\<close> and 1 are what payloads of \<open>2^53 * 10^18\<close> and \<open>10^18\<close> decode to.\<close>

lemma big_and_unit_amounts:
  "int_truediv_1e18 (10 ^ 18) = Some (Finite 1) \<and>
   int_truediv_1e18 (2 ^ 53 * 10 ^ 18) = Some (Finite (2 ^ 53))"
  by code_simp

text \<open>
  The volume depends on the order: \<open>2^53 + 1\<close> rounds to \<open>2^53\<close>, so adding one token twice
  to \<open>2^53\<close> tokens leaves \<open>2^53\<close>, and adding \<open>2^53\<close> to two tokens gives \<open>2^53 + 2\<close>.
\<close>

theorem observe_volume_order_dependent:
  "mset [(0::date, big_transfer), (0, unit_transfer), (0, unit_transfer)] =
     mset [(0, unit_transfer), (0, unit_transfer), (0, big_transfer)] \<and>
   map_option volume
     (map_of (observe_all [] [(0, big_transfer), (0, unit_transfer), (0, unit_transfer)]) 0) =
     Some (Finite (2 ^ 53)) \<and>
   map_option volume
     (map_of (observe_all [] [(0, unit_transfer), (0, unit_transfer), (0, big_transfer)]) 0) =
     Some (Finite (2 ^ 53 + 2))"
proof -
  have "map_option volume
     (map_of (observe_all [] [(0, big_transfer), (0, unit_transfer), (0, unit_transfer)]) 0) =
     Some (Finite (2 ^ 53))"
    by code_simp
  moreover have "map_option volume
     (map_of (observe_all [] [(0, unit_transfer), (0, unit_transfer), (0, big_transfer)]) 0) =
     Some (Finite (2 ^ 53 + 2))"
    by code_simp
  ultimately show ?thesis by simp
qed

subsection \<open>Effects that write no file\<close>

lemma quietly_refl: "quietly w w"
  by (simp add: quietly_def)

lemma quietly_trans: "quietly w w1 \<Longrightarrow> quietly w1 w2 \<Longrightarrow> quietly w w2"
  by (auto simp: quietly_def)

lemma quietly_rpc_get_block: "quietly w (snd (rpc_get_block e n w))"
  by (simp add: quietly_def rpc_get_block_def log_action_def next_tick_def)

lemma quietly_rpc_get_logs: "quietly w (snd (rpc_get_logs e a b w))"
  by (simp add: quietly_def rpc_get_logs_def log_action_def next_tick_def)

lemma quietly_rpc_block_number: "quietly w (snd (rpc_block_number e w))"
  by (simp add: quietly_def rpc_block_number_def log_action_def next_tick_def)

lemma quietly_sleep: "quietly w (sleep ms w)"
  by (simp add: quietly_def sleep_def log_action_def)

lemma quietly_get_block_timestamp_tries: "quietly w (snd (get_block_timestamp_tries e n k w))"
proof (induction k arbitrary: w)
  case 0
  then show ?case by (simp add: quietly_refl)
next
  case (Suc k)
  obtain r w1 where r: "rpc_get_block e n w = (r, w1)" by (cases "rpc_get_block e n w")
  then have q1: "quietly w w1" using quietly_rpc_get_block [of w e n] by simp
  show ?case
  proof (cases r)
    case None
    have "quietly w (snd (get_block_timestamp_tries e n k (sleep 1000 w1)))"
      using q1 quietly_sleep Suc.IH by (blast intro: quietly_trans)
    with None r q1 show ?thesis by simp
  next
    case (Some ts)
    with r q1 show ?thesis by simp
  qed
qed

lemma quietly_get_block_timestamp: "quietly w (snd (get_block_timestamp e n w))"
  by (simp add: get_block_timestamp_def quietly_get_block_timestamp_tries)

lemma quietly_process_events: "quietly w (snd (process_events e cm events w))"
proof (induction events arbitrary: cm w)
  case Nil
  then show ?case by (simp add: quietly_refl)
next
  case (Cons ev events)
  obtain r w1 where r: "get_block_timestamp e (blockNumber ev) w = (r, w1)"
    by (cases "get_block_timestamp e (blockNumber ev) w")
  then have q1: "quietly w w1" using quietly_get_block_timestamp [of w e "blockNumber ev"] by simp
  show ?case
  proof (cases r)
    case None
    with r q1 show ?thesis by simp
  next
    case (Some ts)
    have "quietly w (snd (process_events e cm' events w1))" for cm'
      using q1 Cons.IH by (blast intro: quietly_trans)
    with Some r show ?thesis by (simp split: option.splits)
  qed
qed

lemma chunk_attempt_failed:
  assumes "chunk_attempt e cur chunk_end end_block w = (False, w')"
  shows "quietly w w'"
proof -
  obtain r w1 where r: "rpc_get_logs e cur chunk_end w = (r, w1)"
    by (cases "rpc_get_logs e cur chunk_end w")
  then have q1: "quietly w w1" using quietly_rpc_get_logs [of w e cur chunk_end] by simp
  show ?thesis
  proof (cases r)
    case None
    with r assms q1 show ?thesis by (simp add: chunk_attempt_def)
  next
    case (Some events)
    obtain r2 w2 where p: "process_events e [] events w1 = (r2, w2)"
      by (cases "process_events e [] events w1")
    then have "quietly w1 w2" using quietly_process_events [of w1 e "[]" events] by simp
    with q1 have "quietly w w2" by (rule quietly_trans)
    with r Some p assms show ?thesis
      by (cases r2) (simp_all add: chunk_attempt_def)
  qed
qed

lemma chunk_attempt_succeeded:
  assumes "chunk_attempt e cur chunk_end end_block w = (True, w')"
  shows "\<exists>events w1 cm w2.
           rpc_get_logs e cur chunk_end w = (Some events, w1) \<and>
           process_events e [] events w1 = (Some cm, w2) \<and>
           w' = write_progress cur end_block chunk_end (append_chunk_data cm w2) \<and>
           quietly w w2"
proof -
  obtain r w1 where r: "rpc_get_logs e cur chunk_end w = (r, w1)"
    by (cases "rpc_get_logs e cur chunk_end w")
  then have q1: "quietly w w1" using quietly_rpc_get_logs [of w e cur chunk_end] by simp
  from r assms obtain events where ev: "r = Some events"
    by (cases r) (simp_all add: chunk_attempt_def)
  obtain r2 w2 where p: "process_events e [] events w1 = (r2, w2)"
    by (cases "process_events e [] events w1")
  then have "quietly w1 w2" using quietly_process_events [of w1 e "[]" events] by simp
  with q1 have q: "quietly w w2" by (rule quietly_trans)
  from r ev p assms obtain cm where cm: "r2 = Some cm"
    by (cases r2) (simp_all add: chunk_attempt_def)
  with r ev p assms have "w' = write_progress cur end_block chunk_end (append_chunk_data cm w2)"
    by (simp add: chunk_attempt_def)
  with r ev p cm q show ?thesis by blast
qed

subsection \<open>The scan loop\<close>

declare scan_loop.simps [simp del]

lemma scan_loop_done:
  "\<not> cur < end_block \<Longrightarrow> scan_loop e end_block cur cs w = (cur, cs, w)"
  by (simp add: scan_loop.simps)

lemma scan_loop_ok:
  "cur < end_block \<Longrightarrow> chunk_attempt e cur (min (cur + int cs) end_block) end_block w = (True, w') \<Longrightarrow>
   scan_loop e end_block cur cs w =
     scan_loop e end_block (min (cur + int cs) end_block + 1) cs (sleep 500 w')"
  by (subst scan_loop.simps) simp

lemma scan_loop_failed:
  "cur < end_block \<Longrightarrow> chunk_attempt e cur (min (cur + int cs) end_block) end_block w = (False, w') \<Longrightarrow>
   scan_loop e end_block cur cs w =
     (if cs div 2 < 100 then (cur, cs div 2, w')
      else scan_loop e end_block cur (cs div 2) (sleep 2000 w'))"
  by (subst scan_loop.simps) simp

lemma scan_loop_induct [case_names finished succeeded failed]:
  assumes "\<And>cur cs w. \<not> cur < end_block \<Longrightarrow> P cur cs w"
    and "\<And>cur cs w w'. cur < end_block \<Longrightarrow>
         chunk_attempt e cur (min (cur + int cs) end_block) end_block w = (True, w') \<Longrightarrow>
         P (min (cur + int cs) end_block + 1) cs (sleep 500 w') \<Longrightarrow> P cur cs w"
    and "\<And>cur cs w w'. cur < end_block \<Longrightarrow>
         chunk_attempt e cur (min (cur + int cs) end_block) end_block w = (False, w') \<Longrightarrow>
         (\<not> cs div 2 < 100 \<Longrightarrow> P cur (cs div 2) (sleep 2000 w')) \<Longrightarrow> P cur cs w"
  shows "P cur cs w"
  using assms
proof (induction e end_block cur cs w rule: scan_loop.induct)
  case (1 e end_block cur cs w)
  note d = "1.prems"(1) and s = "1.prems"(2) and f = "1.prems"(3)
  show ?case
  proof (cases "cur < end_block")
    case False
    then show ?thesis by (rule d)
  next
    case True
    obtain ok w' where a: "chunk_attempt e cur (min (cur + int cs) end_block) end_block w = (ok, w')"
      by (cases "chunk_attempt e cur (min (cur + int cs) end_block) end_block w")
    show ?thesis
    proof (cases ok)
      case True
      with a have a': "chunk_attempt e cur (min (cur + int cs) end_block) end_block w = (True, w')"
        by simp
      have "P (min (cur + int cs) end_block + 1) cs (sleep 500 w')"
        by (rule "1.IH"(1) [OF \<open>cur < end_block\<close> refl refl a [symmetric] True]) (fact d s f)+
      then show ?thesis by (rule s [OF \<open>cur < end_block\<close> a'])
    next
      case False
      with a have a': "chunk_attempt e cur (min (cur + int cs) end_block) end_block w = (False, w')"
        by simp
      have "P cur (cs div 2) (sleep 2000 w')" if "\<not> cs div 2 < 100"
        by (rule "1.IH"(2) [OF \<open>cur < end_block\<close> refl refl a [symmetric] False that]) (fact d s f)+
      then show ?thesis by (rule f [OF \<open>cur < end_block\<close> a'])
    qed
  qed
qed

lemma scan_loop_chunk_size: "fst (snd (scan_loop e end_block cur cs w)) \<le> cs"
proof (induction cur cs w rule: scan_loop_induct [where e = e and end_block = end_block])
  case (finished cur cs w)
  then show ?case by (simp add: scan_loop_done)
next
  case (succeeded cur cs w w')
  then show ?case by (simp add: scan_loop_ok)
next
  case (failed cur cs w w')
  then show ?case by (cases "cs div 2 < 100") (auto simp: scan_loop_failed)
qed

lemma flush_then_checkpoint_quiet:
  "list_all writes_nothing pre \<Longrightarrow> flush_then_checkpoint (pre @ tr) = flush_then_checkpoint tr"
proof (induction pre)
  case Nil
  then show ?case by simp
next
  case (Cons a pre)
  then show ?case by (cases a) simp_all
qed

lemma checkpoints_quiet:
  "list_all writes_nothing pre \<Longrightarrow> checkpoints (pre @ tr) = checkpoints tr"
proof (induction pre)
  case Nil
  then show ?case by simp
next
  case (Cons a pre)
  then show ?case by (cases a) simp_all
qed

lemma trace_sleep: "trace (sleep ms w) = trace w @ [Sleep ms]"
  by (simp add: sleep_def log_action_def)

lemma trace_flush_checkpoint:
  "trace (write_progress cur end_block chunk_end (append_chunk_data cm w)) =
     trace w @ [AppendChunkData (map row_of cm), WriteProgress cur end_block chunk_end]"
  by (simp add: write_progress_def append_chunk_data_def log_action_def Let_def)

lemma scan_loop_flush_then_checkpoint:
  "\<exists>new. trace (snd (snd (scan_loop e end_block cur cs w))) = trace w @ new \<and>
         flush_then_checkpoint new \<and> sorted (cur # checkpoints new)"
proof (induction cur cs w rule: scan_loop_induct [where e = e and end_block = end_block])
  case (finished cur cs w)
  then show ?case by (simp add: scan_loop_done)
next
  case (succeeded cur cs w w')
  let ?ce = "min (cur + int cs) end_block"
  from chunk_attempt_succeeded [OF succeeded(2)] obtain cm w2 where
    w': "w' = write_progress cur end_block ?ce (append_chunk_data cm w2)" and q: "quietly w w2"
    by blast
  from q obtain pre where pre: "trace w2 = trace w @ pre" "list_all writes_nothing pre"
    by (auto simp: quietly_def)
  from succeeded(3) obtain new where
    n: "trace (snd (snd (scan_loop e end_block (?ce + 1) cs (sleep 500 w')))) =
          trace (sleep 500 w') @ new"
      "flush_then_checkpoint new" "sorted ((?ce + 1) # checkpoints new)"
    by blast
  let ?new = "pre @ [AppendChunkData (map row_of cm), WriteProgress cur end_block ?ce, Sleep 500] @ new"
  have "trace (snd (snd (scan_loop e end_block cur cs w))) = trace w @ ?new"
    using n(1) pre(1) by (simp add: scan_loop_ok [OF succeeded(1,2)] trace_sleep w' trace_flush_checkpoint)
  moreover have "flush_then_checkpoint ?new"
    using n(2) pre(2) by (simp add: flush_then_checkpoint_quiet)
  moreover have "sorted (cur # checkpoints ?new)"
    using n(3) pre(2) succeeded(1) by (auto simp: checkpoints_quiet)
  ultimately show ?case by blast
next
  case (failed cur cs w w')
  from chunk_attempt_failed [OF failed(2)] obtain pre where
    pre: "trace w' = trace w @ pre" "list_all writes_nothing pre"
    by (auto simp: quietly_def)
  have q0: "flush_then_checkpoint pre" "checkpoints pre = []"
    using flush_then_checkpoint_quiet [OF pre(2), of "[]"] checkpoints_quiet [OF pre(2), of "[]"]
    by simp_all
  show ?case
  proof (cases "cs div 2 < 100")
    case True
    then show ?thesis
      using pre(1) q0 by (simp add: scan_loop_failed [OF failed(1,2)])
  next
    case False
    from failed(3) [OF False] obtain new where
      n: "trace (snd (snd (scan_loop e end_block cur (cs div 2) (sleep 2000 w')))) =
            trace (sleep 2000 w') @ new"
        "flush_then_checkpoint new" "sorted (cur # checkpoints new)"
      by blast
    let ?new = "pre @ [Sleep 2000] @ new"
    have "trace (snd (snd (scan_loop e end_block cur cs w))) = trace w @ ?new"
      using n(1) pre(1) False by (simp add: scan_loop_failed [OF failed(1,2)] trace_sleep)
    moreover have "flush_then_checkpoint ?new"
      using n(2) pre(2) by (simp add: flush_then_checkpoint_quiet)
    moreover have "sorted (cur # checkpoints ?new)"
      using n(3) pre(2) by (simp add: checkpoints_quiet)
    ultimately show ?thesis by blast
  qed
qed

text \<open>
  C7 (as amended): a failed attempt halves the chunk size; when the half is below 100 the
  loop ends at once, and otherwise it sleeps the fixed 2 seconds and tries the same
  \<^verbatim>\<open>current_block\<close> again, with a \<^verbatim>\<open>chunk_end\<close> that is not larger; the chunk size at the end
  of the loop is at most the half.
\<close>

theorem backoff_halves_chunk_size:
  assumes "cur < end_block"
    and "chunk_attempt e cur (min (cur + int cs) end_block) end_block w = (False, w')"
  shows "scan_loop e end_block cur cs w =
           (if cs div 2 < 100 then (cur, cs div 2, w')
            else scan_loop e end_block cur (cs div 2) (sleep 2000 w')) \<and>
         min (cur + int (cs div 2)) end_block \<le> min (cur + int cs) end_block \<and>
         fst (snd (scan_loop e end_block cur cs w)) \<le> cs div 2"
proof -
  have 1: "scan_loop e end_block cur cs w =
           (if cs div 2 < 100 then (cur, cs div 2, w')
            else scan_loop e end_block cur (cs div 2) (sleep 2000 w'))"
    using assms by (rule scan_loop_failed)
  have 2: "min (cur + int (cs div 2)) end_block \<le> min (cur + int cs) end_block"
    by simp
  have 3: "fst (snd (scan_loop e end_block cur cs w)) \<le> cs div 2"
    using scan_loop_chunk_size [of e end_block cur "cs div 2" "sleep 2000 w'"]
    by (simp add: 1)
  from 1 2 3 show ?thesis by blast
qed

lemma flaky5_first_attempt:
  "chunk_attempt flaky5 1 (min (1 + int 1000) 5) 5 world0 =
     (False, \<lparr>tick = 1, csv_file = None, progress_file = None, trace = [GetLogs 1 5]\<rparr>)"
  by code_simp

theorem backoff_halves_chunk_size_witness:
  "(1::int) < 5 \<and>
   chunk_attempt flaky5 1 (min (1 + int 1000) 5) 5 world0 =
     (False, \<lparr>tick = 1, csv_file = None, progress_file = None, trace = [GetLogs 1 5]\<rparr>) \<and>
   scan_loop flaky5 5 1 1000 world0 =
     scan_loop flaky5 5 1 500
       (sleep 2000 \<lparr>tick = 1, csv_file = None, progress_file = None, trace = [GetLogs 1 5]\<rparr>) \<and>
   fst (snd (scan_loop flaky5 5 1 1000 world0)) \<le> 500"
proof -
  have l: "(1::int) < 5" by simp
  note t = backoff_halves_chunk_size [OF l flaky5_first_attempt]
  have a: "scan_loop flaky5 5 1 1000 world0 =
     scan_loop flaky5 5 1 500
       (sleep 2000 \<lparr>tick = 1, csv_file = None, progress_file = None, trace = [GetLogs 1 5]\<rparr>)"
    using t [THEN conjunct1] by simp
  have c: "fst (snd (scan_loop flaky5 5 1 1000 world0)) \<le> 500"
    using t [THEN conjunct2, THEN conjunct2] by simp
  from l flaky5_first_attempt a c show ?thesis by blast
qed

text \<open>
  After each of two failures in a row the loop sleeps the same 2000 milliseconds, and the
  three requests are for the same blocks 1 to 5: the delay does not increase and
  \<^verbatim>\<open>chunk_end\<close> does not get smaller.
\<close>

theorem backoff_delay_constant:
  "sleeps (trace (snd (snd (scan_loop flaky5 5 1 1000 world0)))) = [2000, 2000, 500] \<and>
   fetched (trace (snd (snd (scan_loop flaky5 5 1 1000 world0)))) = [(1, 5), (1, 5), (1, 5)]"
proof -
  have "trace (snd (snd (scan_loop flaky5 5 1 1000 world0))) =
     [GetLogs 1 5, Sleep 2000, GetLogs 1 5, Sleep 2000, GetLogs 1 5, AppendChunkData [],
      WriteProgress 1 5 5, Sleep 500]"
    by code_simp
  then show ?thesis by simp
qed

text \<open>
  C10: an attempt that fails (in \<^verbatim>\<open>get_logs\<close> or in a timestamp fetch) leaves the CSV file
  and the progress file as they were and writes nothing; when the next attempt succeeds, the
  CSV file is the file of before the failed attempt with the rows of the events of the
  successful attempt alone, accumulated from an empty dict.
\<close>

theorem failed_attempt_writes_nothing:
  assumes "chunk_attempt e cur chunk_end end_block w = (False, w1)"
  shows "csv_file w1 = csv_file w \<and> progress_file w1 = progress_file w \<and>
         (\<exists>new. trace w1 = trace w @ new \<and> list_all writes_nothing new) \<and>
         (\<forall>chunk_end' w2.
            chunk_attempt e cur chunk_end' end_block (sleep 2000 w1) = (True, w2) \<longrightarrow>
            (\<exists>events u cm u'.
               rpc_get_logs e cur chunk_end' (sleep 2000 w1) = (Some events, u) \<and>
               process_events e [] events u = (Some cm, u') \<and>
               csv_file w2 =
                 (if cm = [] then csv_file w
                  else Some ((case csv_file w of None \<Rightarrow> [] | Some rows \<Rightarrow> rows) @ map row_of cm)) \<and>
               progress_file w2 = Some (cur, end_block, chunk_end')))"
proof -
  from chunk_attempt_failed [OF assms] have q: "quietly w w1" .
  have "\<exists>events u cm u'.
               rpc_get_logs e cur chunk_end' (sleep 2000 w1) = (Some events, u) \<and>
               process_events e [] events u = (Some cm, u') \<and>
               csv_file w2 =
                 (if cm = [] then csv_file w
                  else Some ((case csv_file w of None \<Rightarrow> [] | Some rows \<Rightarrow> rows) @ map row_of cm)) \<and>
               progress_file w2 = Some (cur, end_block, chunk_end')"
    if "chunk_attempt e cur chunk_end' end_block (sleep 2000 w1) = (True, w2)" for chunk_end' w2
  proof -
    from chunk_attempt_succeeded [OF that] obtain events u cm u' where
      s: "rpc_get_logs e cur chunk_end' (sleep 2000 w1) = (Some events, u)"
        "process_events e [] events u = (Some cm, u')"
        "w2 = write_progress cur end_block chunk_end' (append_chunk_data cm u')"
        "quietly (sleep 2000 w1) u'"
      by blast
    have "quietly w u'"
      using q quietly_sleep s(4) by (blast intro: quietly_trans)
    then have "csv_file u' = csv_file w" by (simp add: quietly_def)
    then have "csv_file w2 =
                 (if cm = [] then csv_file w
                  else Some ((case csv_file w of None \<Rightarrow> [] | Some rows \<Rightarrow> rows) @ map row_of cm))"
      and "progress_file w2 = Some (cur, end_block, chunk_end')"
      by (simp_all add: s(3) write_progress_def append_chunk_data_def log_action_def Let_def)
    with s(1,2) show ?thesis by blast
  qed
  with q show ?thesis by (simp add: quietly_def)
qed

lemma stall5_first_attempt:
  "chunk_attempt stall5 1 5 5 world0 = (False, \<lparr>tick = 5, csv_file = None, progress_file = None,
       trace = [GetLogs 1 5, GetBlock 2, GetBlock 4, Sleep 1000, GetBlock 4, Sleep 1000,
                GetBlock 4]\<rparr>)"
  by code_simp

lemma stall5_second_attempt:
  "chunk_attempt stall5 1 5 5 (sleep 2000 \<lparr>tick = 5, csv_file = None, progress_file = None,
       trace = [GetLogs 1 5, GetBlock 2, GetBlock 4, Sleep 1000, GetBlock 4, Sleep 1000,
                GetBlock 4]\<rparr>) =
     (True, \<lparr>tick = 8, csv_file = Some [\<lparr>row_date = 0, row_transactions = 2, row_active_addresses = 3,
                  row_volume = Finite 0, row_unique_senders = 2, row_unique_receivers = 2\<rparr>], progress_file = Some (1, 5, 5),
       trace = [GetLogs 1 5, GetBlock 2, GetBlock 4, Sleep 1000, GetBlock 4, Sleep 1000,
                GetBlock 4, Sleep 2000, GetLogs 1 5, GetBlock 2, GetBlock 4,
                AppendChunkData [\<lparr>row_date = 0, row_transactions = 2, row_active_addresses = 3,
                  row_volume = Finite 0, row_unique_senders = 2, row_unique_receivers = 2\<rparr>], WriteProgress 1 5 5]\<rparr>)"
  by code_simp

theorem failed_attempt_writes_nothing_witness:
  "chunk_attempt stall5 1 5 5 world0 = (False, \<lparr>tick = 5, csv_file = None, progress_file = None,
       trace = [GetLogs 1 5, GetBlock 2, GetBlock 4, Sleep 1000, GetBlock 4, Sleep 1000,
                GetBlock 4]\<rparr>) \<and>
   chunk_attempt stall5 1 5 5 (sleep 2000 \<lparr>tick = 5, csv_file = None, progress_file = None,
       trace = [GetLogs 1 5, GetBlock 2, GetBlock 4, Sleep 1000, GetBlock 4, Sleep 1000,
                GetBlock 4]\<rparr>) =
     (True, \<lparr>tick = 8, csv_file = Some [\<lparr>row_date = 0, row_transactions = 2, row_active_addresses = 3,
                  row_volume = Finite 0, row_unique_senders = 2, row_unique_receivers = 2\<rparr>], progress_file = Some (1, 5, 5),
       trace = [GetLogs 1 5, GetBlock 2, GetBlock 4, Sleep 1000, GetBlock 4, Sleep 1000,
                GetBlock 4, Sleep 2000, GetLogs 1 5, GetBlock 2, GetBlock 4,
                AppendChunkData [\<lparr>row_date = 0, row_transactions = 2, row_active_addresses = 3,
                  row_volume = Finite 0, row_unique_senders = 2, row_unique_receivers = 2\<rparr>], WriteProgress 1 5 5]\<rparr>) \<and>
   csv_file \<lparr>tick = 5, csv_file = None, progress_file = None,
       trace = [GetLogs 1 5, GetBlock 2, GetBlock 4, Sleep 1000, GetBlock 4, Sleep 1000,
                GetBlock 4]\<rparr> = None \<and>
   progress_file \<lparr>tick = 5, csv_file = None, progress_file = None,
       trace = [GetLogs 1 5, GetBlock 2, GetBlock 4, Sleep 1000, GetBlock 4, Sleep 1000,
                GetBlock 4]\<rparr> = None \<and>
   csv_file \<lparr>tick = 8, csv_file = Some [\<lparr>row_date = 0, row_transactions = 2, row_active_addresses = 3,
                  row_volume = Finite 0, row_unique_senders = 2, row_unique_receivers = 2\<rparr>], progress_file = Some (1, 5, 5),
       trace = [GetLogs 1 5, GetBlock 2, GetBlock 4, Sleep 1000, GetBlock 4, Sleep 1000,
                GetBlock 4, Sleep 2000, GetLogs 1 5, GetBlock 2, GetBlock 4,
                AppendChunkData [\<lparr>row_date = 0, row_transactions = 2, row_active_addresses = 3,
                  row_volume = Finite 0, row_unique_senders = 2, row_unique_receivers = 2\<rparr>], WriteProgress 1 5 5]\<rparr> = Some [\<lparr>row_date = 0, row_transactions = 2, row_active_addresses = 3,
                  row_volume = Finite 0, row_unique_senders = 2, row_unique_receivers = 2\<rparr>]"
  using failed_attempt_writes_nothing [OF stall5_first_attempt]
    stall5_first_attempt stall5_second_attempt
  by simp

subsection \<open>The whole run\<close>

declare find_block_loop.simps [simp del]

lemma rpc_block_number_progress:
  "rpc_block_number e (w\<lparr>progress_file := p\<rparr>) =
     (fst (rpc_block_number e w), (snd (rpc_block_number e w))\<lparr>progress_file := p\<rparr>)"
  by (simp add: rpc_block_number_def log_action_def next_tick_def)

lemma rpc_get_block_progress:
  "rpc_get_block e n (w\<lparr>progress_file := p\<rparr>) =
     (fst (rpc_get_block e n w), (snd (rpc_get_block e n w))\<lparr>progress_file := p\<rparr>)"
  by (simp add: rpc_get_block_def log_action_def next_tick_def)

lemma find_block_loop_progress:
  "find_block_loop e t l r (w\<lparr>progress_file := p\<rparr>) =
     (fst (find_block_loop e t l r w), (snd (find_block_loop e t l r w))\<lparr>progress_file := p\<rparr>)"
proof (induction e t l r w rule: find_block_loop.induct)
  case (1 e t l r w)
  show ?case
  proof (cases "l \<le> r")
    case False
    then show ?thesis by (simp add: find_block_loop.simps)
  next
    case True
    obtain x w1 where g: "rpc_get_block e ((l + r) div 2) w = (x, w1)"
      by (cases "rpc_get_block e ((l + r) div 2) w")
    then have g': "rpc_get_block e ((l + r) div 2) (w\<lparr>progress_file := p\<rparr>) =
        (x, w1\<lparr>progress_file := p\<rparr>)"
      by (simp add: rpc_get_block_progress)
    show ?thesis
    proof (cases x)
      case None
      with True g g' show ?thesis
        by (simp add: find_block_loop.simps [of e t l r])
    next
      case (Some ts)
      note ih1 = "1.IH"(1) [OF True refl g [symmetric] Some]
      note ih2 = "1.IH"(2) [OF True refl g [symmetric] Some]
      from True g g' Some ih1 ih2 show ?thesis
        by (auto simp: find_block_loop.simps [of e t l r] Let_def)
    qed
  qed
qed

lemma find_block_by_timestamp_progress:
  "find_block_by_timestamp e t (w\<lparr>progress_file := p\<rparr>) =
     (fst (find_block_by_timestamp e t w),
      (snd (find_block_by_timestamp e t w))\<lparr>progress_file := p\<rparr>)"
  by (simp add: find_block_by_timestamp_def rpc_block_number_progress find_block_loop_progress
      split: prod.splits option.splits search.splits)

lemma write_progress_overwrites:
  "write_progress a b c (w\<lparr>progress_file := p\<rparr>) = write_progress a b c w"
  by (simp add: write_progress_def log_action_def)

lemma quietly_find_block_loop: "quietly w (snd (find_block_loop e t l r w))"
proof (induction e t l r w rule: find_block_loop.induct)
  case (1 e t l r w)
  show ?case
  proof (cases "l \<le> r")
    case False
    then show ?thesis by (simp add: find_block_loop.simps quietly_refl)
  next
    case True
    obtain x w1 where g: "rpc_get_block e ((l + r) div 2) w = (x, w1)"
      by (cases "rpc_get_block e ((l + r) div 2) w")
    then have q1: "quietly w w1" using quietly_rpc_get_block [of w e "(l + r) div 2"] by simp
    show ?thesis
    proof (cases x)
      case None
      with True g q1 show ?thesis
        by (simp add: find_block_loop.simps [of e t l r])
    next
      case (Some ts)
      note ih1 = "1.IH"(1) [OF True refl g [symmetric] Some]
      note ih2 = "1.IH"(2) [OF True refl g [symmetric] Some]
      have "quietly w (snd (find_block_loop e t ((l + r) div 2 + 1) r w1))" if "ts \<noteq> t" "ts < t"
        using q1 ih1 [OF that] by (rule quietly_trans)
      moreover have "quietly w (snd (find_block_loop e t l ((l + r) div 2 - 1) w1))"
        if "ts \<noteq> t" "\<not> ts < t"
        using q1 ih2 [OF that] by (rule quietly_trans)
      ultimately show ?thesis
        using True g Some q1 by (auto simp: find_block_loop.simps [of e t l r] Let_def)
    qed
  qed
qed

lemma quietly_find_block_by_timestamp: "quietly w (snd (find_block_by_timestamp e t w))"
proof -
  obtain h w1 where b: "rpc_block_number e w = (h, w1)" by (cases "rpc_block_number e w")
  then have q1: "quietly w w1" using quietly_rpc_block_number [of w e] by simp
  show ?thesis
  proof (cases h)
    case None
    with b q1 show ?thesis by (simp add: find_block_by_timestamp_def)
  next
    case (Some right)
    obtain x w2 where f: "find_block_loop e t 1 right w1 = (x, w2)"
      by (cases "find_block_loop e t 1 right w1")
    then have "quietly w1 w2" using quietly_find_block_loop [of w1 e t 1 right] by simp
    with q1 have q2: "quietly w w2" by (rule quietly_trans)
    have "quietly w (snd (rpc_block_number e w2))"
      using q2 quietly_rpc_block_number by (rule quietly_trans)
    with b Some f q2 show ?thesis
      by (cases x) (auto simp: find_block_by_timestamp_def split: prod.splits option.splits)
  qed
qed

lemma run_checkpoints_sorted:
  "\<exists>new. trace (snd (get_token_metrics e s t cs w)) = trace w @ new \<and> sorted (checkpoints new)"
proof -
  obtain r1 w1 where f1: "find_block_by_timestamp e s w = (r1, w1)"
    by (cases "find_block_by_timestamp e s w")
  then have q1: "quietly w w1" using quietly_find_block_by_timestamp [of w e s] by simp
  obtain r2 w2 where f2: "find_block_by_timestamp e t w1 = (r2, w2)"
    by (cases "find_block_by_timestamp e t w1")
  then have "quietly w1 w2" using quietly_find_block_by_timestamp [of w1 e t] by simp
  with q1 have q2: "quietly w w2" by (rule quietly_trans)
  have quiet: "\<exists>new. trace u = trace w @ new \<and> sorted (checkpoints new)" if "quietly w u" for u
  proof -
    from that obtain new where n: "trace u = trace w @ new" "list_all writes_nothing new"
      by (auto simp: quietly_def)
    from checkpoints_quiet [OF n(2), of "[]"] have "checkpoints new = []" by simp
    with n(1) show ?thesis by simp
  qed
  show ?thesis
  proof (cases "\<exists>cb eb. r1 = Returned cb \<and> r2 = Returned eb \<and> \<not> (falsy cb \<or> falsy eb)")
    case False
    then have "snd (get_token_metrics e s t cs w) = w1 \<or> snd (get_token_metrics e s t cs w) = w2"
      using f1 f2 by (cases r1; cases r2) (auto simp: get_token_metrics_def)
    with q1 q2 quiet show ?thesis by metis
  next
    case True
    then obtain cb eb where r: "r1 = Returned cb" "r2 = Returned eb" "\<not> (falsy cb \<or> falsy eb)"
      by blast
    let ?w3 = "write_progress (the cb) (the eb) (the cb) w2"
    from q2 obtain pre where pre: "trace w2 = trace w @ pre" "list_all writes_nothing pre"
      by (auto simp: quietly_def)
    from scan_loop_flush_then_checkpoint [of e "the eb" "the cb" cs ?w3] obtain new where
      n: "trace (snd (snd (scan_loop e (the eb) (the cb) cs ?w3))) = trace ?w3 @ new"
        "sorted (the cb # checkpoints new)"
      by blast
    have "snd (get_token_metrics e s t cs w) = snd (snd (scan_loop e (the eb) (the cb) cs ?w3))"
      using f1 f2 r by (simp add: get_token_metrics_def split: prod.splits)
    then have "trace (snd (get_token_metrics e s t cs w)) =
        trace w @ pre @ [WriteProgress (the cb) (the eb) (the cb)] @ new"
      using n(1) pre(1) by (simp add: write_progress_def log_action_def)
    moreover have "sorted (checkpoints (pre @ [WriteProgress (the cb) (the eb) (the cb)] @ new))"
      using n(2) pre(2) by (simp add: checkpoints_quiet)
    ultimately show ?thesis by blast
  qed
qed

text \<open>
  C8: in every run of the scan loop, each call of \<^verbatim>\<open>append_chunk_data\<close> is followed at once
  by the write of the progress file and each write of the progress file follows such a call
  at once; the \<^verbatim>\<open>last_processed\<close> values that the loop writes are in non-decreasing order
  and none is below \<^verbatim>\<open>current_block\<close> at the start of the loop. In a whole run, which writes
  \<^verbatim>\<open>last_processed = current_block\<close> once before the loop, all the \<^verbatim>\<open>last_processed\<close> values
  written are in non-decreasing order.
\<close>

theorem flush_before_checkpoint:
  "(\<exists>new. trace (snd (snd (scan_loop e end_block cur cs w))) = trace w @ new \<and>
          flush_then_checkpoint new \<and> sorted (cur # checkpoints new)) \<and>
   (\<exists>new. trace (snd (get_token_metrics e s t cs' w')) = trace w' @ new \<and>
          sorted (checkpoints new))"
  using scan_loop_flush_then_checkpoint run_checkpoints_sorted by blast

text \<open>
  C1 (as amended): there is no resume. A run never reads the progress file: with any saved
  progress \<open>p\<close> it returns what it returns without, and it ends in the same state, or, when
  it ends before the scan starts, in the same state with \<open>p\<close> still in the file. The scan
  starts at the block found for the start date, and the progress file is written over.
\<close>

theorem saved_progress_ignored:
  "fst (get_token_metrics e s t cs (w\<lparr>progress_file := p\<rparr>)) = fst (get_token_metrics e s t cs w) \<and>
   (snd (get_token_metrics e s t cs (w\<lparr>progress_file := p\<rparr>)) = snd (get_token_metrics e s t cs w) \<or>
    snd (get_token_metrics e s t cs (w\<lparr>progress_file := p\<rparr>)) =
      (snd (get_token_metrics e s t cs w))\<lparr>progress_file := p\<rparr>)"
proof -
  obtain r1 w1 where f1: "find_block_by_timestamp e s w = (r1, w1)"
    by (cases "find_block_by_timestamp e s w")
  then have f1': "find_block_by_timestamp e s (w\<lparr>progress_file := p\<rparr>) = (r1, w1\<lparr>progress_file := p\<rparr>)"
    by (simp add: find_block_by_timestamp_progress)
  obtain r2 w2 where f2: "find_block_by_timestamp e t w1 = (r2, w2)"
    by (cases "find_block_by_timestamp e t w1")
  then have f2': "find_block_by_timestamp e t (w1\<lparr>progress_file := p\<rparr>) = (r2, w2\<lparr>progress_file := p\<rparr>)"
    by (simp add: find_block_by_timestamp_progress)
  show ?thesis
    using f1 f1' f2 f2'
    by (simp add: get_token_metrics_def write_progress_overwrites
        split: result.splits prod.splits)
qed

text \<open>
  With the progress (1, 5, 3) saved, the run requests the blocks 1 to 5 again: it starts at
  block 1, not at block 4.
\<close>

theorem saved_progress_rescanned:
  "progress_file (world0\<lparr>progress_file := Some (1, 5, 3)\<rparr>) = Some (1, 5, 3) \<and>
   fetched (trace (snd (get_token_metrics quiet5 100 500 1000
     (world0\<lparr>progress_file := Some (1, 5, 3)\<rparr>)))) = [(1, 5)]"
proof -
  have "fetched (trace (snd (get_token_metrics quiet5 100 500 1000
     (world0\<lparr>progress_file := Some (1, 5, 3)\<rparr>)))) = [(1, 5)]"
    by code_simp
  then show ?thesis by (simp add: world0_def)
qed

text \<open>
  C3: the loop condition is \<^verbatim>\<open>current_block < end_block\<close>, so a scan whose next chunk would
  start at \<^verbatim>\<open>end_block\<close> ends without that block. On the five-block chain with
  \<^verbatim>\<open>chunk_size = 1\<close> the blocks 1 to 2 and 3 to 4 are requested and block 5 never is; the
  run ends normally with \<^verbatim>\<open>last_processed = 4\<close> and \<^verbatim>\<open>end_block = 5\<close>.
\<close>

theorem scan_omits_last_block:
  "get_token_metrics quiet5 100 500 1 world0 =
   (Returned None,
    \<lparr>tick = 9, csv_file = None, progress_file = Some (3, 5, 4),
     trace = [BlockNumber, GetBlock 3, GetBlock 1, BlockNumber, GetBlock 3, GetBlock 4, GetBlock 5,
              WriteProgress 1 5 1,
              GetLogs 1 2, AppendChunkData [], WriteProgress 1 5 2, Sleep 500,
              GetLogs 3 4, AppendChunkData [], WriteProgress 3 5 4, Sleep 500]\<rparr>)"
  by code_simp

text \<open>
  The scenario of the design notes: scanning the blocks 1 to 5 of the five-block chain gives
  one row, both transfers falling on the same day: two transactions, the three addresses A, B
  and C, the volume 3.0, two senders and two receivers.
\<close>

lemma five_block_scenario:
  "fst (get_token_metrics chain5 100 500 1000 world0) =
     Returned (Some [\<lparr>row_date = 0, row_transactions = 2, row_active_addresses = 3,
                      row_volume = Finite 3, row_unique_senders = 2, row_unique_receivers = 2\<rparr>])"
  by code_simp

text \<open>
  C4: for the target 210 on the chain with the timestamps 100, 200, 300, 400, 500 the search
  returns block 3, whose timestamp is 90 away, and not block 2, whose timestamp is 10 away.
\<close>

theorem find_block_not_closest:
  "fst (find_block_by_timestamp chain5 210 world0) = Returned (Some 3) \<and>
   eth_get_block chain5 0 2 = Some 200 \<and> eth_get_block chain5 0 3 = Some 300 \<and>
   \<bar>200 - 210\<bar> < \<bar>300 - (210::int)\<bar>"
proof -
  have "fst (find_block_by_timestamp chain5 210 world0) = Returned (Some 3)"
    by code_simp
  then show ?thesis by (simp add: chain5_def)
qed

end
